theory Spec2Isabelle
  imports Main
begin

section \<open>Strings and characters\<close>

text \<open>
  Page text, file contents and record fields are JavaScript strings; they are modelled as
  \<open>string\<close> (lists of 8-bit characters), which covers every character the program's
  patterns name (they are all ASCII).
\<close>

abbreviation comma :: char where "comma \<equiv> CHR 0x2C"
abbreviation dquote :: char where "dquote \<equiv> CHR 0x22"
abbreviation newline :: char where "newline \<equiv> CHR 0x0A"
abbreviation creturn :: char where "creturn \<equiv> CHR 0x0D"

text \<open>\<open>Array.prototype.join\<close> with a one-character separator.\<close>

fun join :: "char \<Rightarrow> string list \<Rightarrow> string" where
  "join sep [] = []"
| "join sep [x] = x"
| "join sep (x # y # ys) = x @ sep # join sep (y # ys)"

text \<open>\<open>xs.slice(a, b)\<close> for \<open>0 \<le> a \<le> b\<close>.\<close>

definition slice :: "'a list \<Rightarrow> nat \<Rightarrow> nat \<Rightarrow> 'a list" where
  "slice xs a b = take (b - a) (drop a xs)"

section \<open>Records and the persistence collaborators\<close>

text \<open>The object literal \<open>{ email: e, query, timestamp }\<close> built in \<open>runQuery\<close>.\<close>

record row =
  email :: string
  query :: string
  timestamp :: string

text \<open>The object literal \<open>{ created_at: r.timestamp, email: r.email }\<close> of \<open>saveToSupabase\<close>.\<close>

record insert_row =
  created_at :: string
  email_col :: string

definition CSV_HEADER :: string where
  "CSV_HEADER = ''email,query,timestamp''"

text \<open>\<open>escapeCsv\<close>: quote the value when it holds a comma, a double quote or a newline.\<close>

definition escapeCsv :: "string \<Rightarrow> string" where
  "escapeCsv s =
     (if comma \<in> set s \<or> dquote \<in> set s \<or> newline \<in> set s
      then dquote # concat (map (\<lambda>c. if c = dquote then [dquote, dquote] else [c]) s) @ [dquote]
      else s)"

text \<open>The text \<open>appendToCSV\<close> builds for a non-empty batch: one line per row.\<close>

definition csv_line :: "row \<Rightarrow> string" where
  "csv_line r = escapeCsv (email r) @ comma # escapeCsv (timestamp r)"

definition csv_content :: "row list \<Rightarrow> string" where
  "csv_content rows = join newline (map csv_line rows) @ [newline]"

text \<open>
  \<open>appendToCSV\<close> on the output file's contents. \<open>fails\<close> says that
  \<open>fs.appendFileSync\<close> throws; the error is caught and logged and the file is as before.
\<close>

definition appendToCSV :: "bool \<Rightarrow> row list \<Rightarrow> string \<Rightarrow> string" where
  "appendToCSV fails rows file =
     (if rows = [] then file
      else if fails then file
      else file @ csv_content rows)"

text \<open>
  \<open>saveToSupabase\<close> on the table's rows. \<open>supabase\<close> says that a client was configured;
  \<open>fails\<close> that the insert reports an error or throws (logged, nothing stored).
\<close>

definition supabase_inserts :: "row list \<Rightarrow> insert_row list" where
  "supabase_inserts rows = map (\<lambda>r. \<lparr>created_at = timestamp r, email_col = email r\<rparr>) rows"

definition saveToSupabase :: "bool \<Rightarrow> bool \<Rightarrow> row list \<Rightarrow> insert_row list \<Rightarrow> insert_row list" where
  "saveToSupabase supabase fails rows table =
     (if \<not> supabase \<or> rows = [] then table
      else if fails then table
      else table @ supabase_inserts rows)"

text \<open>
  Reading a line of the delimited file back: the fields of a line, split at the commas
  that stand outside double quotes.
\<close>

fun csv_fields_aux :: "bool \<Rightarrow> string \<Rightarrow> string \<Rightarrow> string list" where
  "csv_fields_aux inq cur [] = [rev cur]"
| "csv_fields_aux inq cur (c # cs) =
     (if c = dquote then csv_fields_aux (\<not> inq) (c # cur) cs
      else if c = comma \<and> \<not> inq then rev cur # csv_fields_aux False [] cs
      else csv_fields_aux inq (c # cur) cs)"

definition csv_fields :: "string \<Rightarrow> string list" where
  "csv_fields l = csv_fields_aux False [] l"

section \<open>The concurrency scheduler\<close>

text \<open>
  \<open>CONCURRENCY = Math.max(1, parseInt(...))\<close>. The argument is what \<open>parseInt\<close> read: an
  integer, or \<open>None\<close> for \<open>NaN\<close> (a setting that is not a number). \<open>Math.max(1, NaN)\<close> is
  \<open>NaN\<close>, so the constant is a number that is at least 1, or \<open>NaN\<close>.
\<close>

definition CONCURRENCY :: "int option \<Rightarrow> nat option" where
  "CONCURRENCY env = (case env of None \<Rightarrow> None | Some n \<Rightarrow> Some (nat (max 1 n)))"

text \<open>
  The batching loop of the entry function:
  \<^verbatim>\<open>
  let idx = 0;
  while (idx < queries.length) {
    const slice = queries.slice(idx, idx + CONCURRENCY);
    await Promise.allSettled(slice.map(q => runQuery(browser, q)));
    idx += CONCURRENCY;
  }
  \<close>
  \<open>batches\<close> lists the slices in the order the loop takes them. With \<open>NaN\<close> the first
  slice is \<open>queries.slice(0, NaN)\<close>, which is empty, \<open>idx\<close> becomes \<open>NaN\<close> and the loop ends.
\<close>

function batches :: "int option \<Rightarrow> nat \<Rightarrow> 'q list \<Rightarrow> 'q list list" where
  "batches env idx queries =
     (if idx < length queries
      then (case CONCURRENCY env of
              None \<Rightarrow> [[]]
            | Some c \<Rightarrow> slice queries idx (idx + c) # batches env (idx + c) queries)
      else [])"
  by pat_completeness auto
termination
  by (relation "measure (\<lambda>(env, idx, queries). length queries - idx)")
     (auto simp: CONCURRENCY_def split: option.splits)

text \<open>
  What the scheduler does, as a trace. A session is named by the position of its query
  in the list. \<open>Launch i\<close> is the call \<open>runQuery(browser, q)\<close> made by \<open>slice.map\<close>, in
  the order of the slice; \<open>Settled i ok\<close> is the session's promise having settled (\<open>ok\<close>:
  fulfilled, otherwise rejected). The sessions of a slice settle in an order the program
  does not decide: \<open>order\<close> gives it, for each slice. \<open>Promise.allSettled\<close> resumes the loop
  when every promise of the slice has settled, whatever the outcome.
\<close>

datatype sched_event = Launch nat | Settled nat bool

function schedule ::
  "(nat list \<Rightarrow> nat list) \<Rightarrow> (nat \<Rightarrow> bool) \<Rightarrow> int option \<Rightarrow> nat \<Rightarrow> 'q list
   \<Rightarrow> sched_event list" where
  "schedule order outcome env idx queries =
     (if idx < length queries
      then (case CONCURRENCY env of
              None \<Rightarrow> []
            | Some c \<Rightarrow>
                (let sl = slice [0..<length queries] idx (idx + c)
                 in map Launch sl @ map (\<lambda>i. Settled i (outcome i)) (order sl)
                    @ schedule order outcome env (idx + c) queries))
      else [])"
  by pat_completeness auto
termination
  by (relation "measure (\<lambda>(order, outcome, env, idx, queries). length queries - idx)")
     (auto simp: CONCURRENCY_def split: option.splits)

declare batches.simps [simp del]
declare schedule.simps [simp del]

text \<open>An order of settling: the sessions of the slice, each once, in any order.\<close>

definition reorders :: "(nat list \<Rightarrow> nat list) \<Rightarrow> bool" where
  "reorders order = (\<forall>sl. distinct sl \<longrightarrow> distinct (order sl) \<and> set (order sl) = set sl)"

text \<open>
  Reading a trace of \<open>n\<close> sessions for the barrier between batches of size \<open>c\<close>; the
  batch of a session is its position \<open>div c\<close>. \<open>started\<close> holds the sessions launched so
  far, \<open>running\<close> those of them that have not settled yet.
  \<^item> A launch is in order when the session was not launched before and everything still
    running is of its own batch: the batches before have settled completely.
  \<^item> A settling is in order when the session is running and every session of its batch
    has been launched: the sessions of a batch are all in flight before one is over.
  \<^item> The end is in order when nothing is running.
\<close>

fun barrier_ok :: "nat \<Rightarrow> nat \<Rightarrow> nat set \<Rightarrow> nat set \<Rightarrow> sched_event list \<Rightarrow> bool" where
  "barrier_ok c n started running [] = (running = {})"
| "barrier_ok c n started running (Launch i # tr) =
     (i \<notin> started \<and> (\<forall>j \<in> running. j div c = i div c)
      \<and> barrier_ok c n (insert i started) (insert i running) tr)"
| "barrier_ok c n started running (Settled i b # tr) =
     (i \<in> running \<and> (\<forall>j<n. j div c = i div c \<longrightarrow> j \<in> started)
      \<and> barrier_ok c n started (running - {i}) tr)"

text \<open>The sessions launched along a trace, in order.\<close>

fun launched :: "sched_event list \<Rightarrow> nat list" where
  "launched [] = []"
| "launched (Launch i # tr) = i # launched tr"
| "launched (Settled i b # tr) = launched tr"

text \<open>Seven queries, and a run in which the fifth session fails.\<close>

definition seven :: "string list" where
  "seven = [''q0'', ''q1'', ''q2'', ''q3'', ''q4'', ''q5'', ''q6'']"

definition fifth_fails :: "nat \<Rightarrow> bool" where
  "fifth_fails i = (i \<noteq> 4)"

section \<open>The extractor\<close>

definition code :: "char \<Rightarrow> nat" where
  "code c = of_char c"

definition is_upper :: "char \<Rightarrow> bool" where
  "is_upper c = (65 \<le> code c \<and> code c \<le> 90)"

definition is_lower :: "char \<Rightarrow> bool" where
  "is_lower c = (97 \<le> code c \<and> code c \<le> 122)"

definition is_digit :: "char \<Rightarrow> bool" where
  "is_digit c = (48 \<le> code c \<and> code c \<le> 57)"

text \<open>The three character classes of \<open>EMAIL_REGEX\<close>.\<close>

definition letter_char :: "char \<Rightarrow> bool" where
  "letter_char c = (is_lower c \<or> is_upper c)"

definition local_char :: "char \<Rightarrow> bool" where
  "local_char c = (is_lower c \<or> is_upper c \<or> is_digit c \<or> c \<in> set ''._%+-'')"

definition domain_char :: "char \<Rightarrow> bool" where
  "domain_char c = (is_lower c \<or> is_upper c \<or> is_digit c \<or> c \<in> set ''.-'')"

text \<open>
  The pattern language \<open>EMAIL_REGEX\<close> is written in: a literal character, and a character
  class repeated at least \<open>lo\<close> times (\<open>+\<close> is \<open>lo = 1\<close>, \<open>{2,}\<close> is \<open>lo = 2\<close>).
\<close>

datatype rx = Lit char | Cls "char \<Rightarrow> bool" nat

text \<open>
  A greedy repetition takes as many characters as it can and gives them back one at a
  time while the rest of the pattern fails: \<open>backtrack cont lo k s\<close> tries the lengths
  \<open>k, k - 1, \<dots>, lo\<close> of the repetition, \<open>cont\<close> matching what follows.
\<close>

fun backtrack :: "(string \<Rightarrow> string option) \<Rightarrow> nat \<Rightarrow> nat \<Rightarrow> string \<Rightarrow> string option" where
  "backtrack cont lo 0 s = (if lo = 0 then cont s else None)"
| "backtrack cont lo (Suc k) s =
     (if Suc k < lo then None
      else case cont (drop (Suc k) s) of
             Some m \<Rightarrow> Some (take (Suc k) s @ m)
           | None \<Rightarrow> backtrack cont lo k s)"

text \<open>\<open>rmatch p s\<close>: the text the pattern matches at the very start of \<open>s\<close>, if any.\<close>

primrec rmatch :: "rx list \<Rightarrow> string \<Rightarrow> string option" where
  "rmatch [] s = Some []"
| "rmatch (x # xs) s =
     (case x of
        Lit c \<Rightarrow>
          (case s of
             [] \<Rightarrow> None
           | d # ds \<Rightarrow> if d = c then map_option ((#) d) (rmatch xs ds) else None)
      | Cls p lo \<Rightarrow> backtrack (rmatch xs) lo (length (takeWhile p s)) s)"

text \<open>\<open>/[a-zA-Z0-9._%+-]+@[a-zA-Z0-9.-]+\.[a-zA-Z]{2,}/\<close>\<close>

definition EMAIL_REGEX :: "rx list" where
  "EMAIL_REGEX =
     [Cls local_char 1, Lit (CHR ''@''), Cls domain_char 1, Lit (CHR ''.''), Cls letter_char 2]"

lemma backtrack_nonempty:
  "backtrack cont (Suc lo) k (c # cs) = Some m \<Longrightarrow> m \<noteq> []"
  by (induction k) (auto split: option.splits if_splits)

lemma EMAIL_REGEX_nonempty: "rmatch EMAIL_REGEX (c # cs) = Some m \<Longrightarrow> m \<noteq> []"
  unfolding EMAIL_REGEX_def using backtrack_nonempty [of _ 0] by simp

text \<open>
  \<open>text.match(EMAIL_REGEX)\<close> with the \<open>g\<close> flag: all matches from left to right, the
  search resuming where the last match ended, and one character further on where the
  pattern does not match.
\<close>

function match_all :: "string \<Rightarrow> string list" where
  "match_all [] = []"
| "match_all (c # cs) =
     (case rmatch EMAIL_REGEX (c # cs) of
        None \<Rightarrow> match_all cs
      | Some m \<Rightarrow> m # match_all (drop (length m) (c # cs)))"
  by pat_completeness auto
termination
proof (relation "measure length")
  fix c cs m
  assume "rmatch EMAIL_REGEX (c # cs) = Some m"
  then have "m \<noteq> []" by (rule EMAIL_REGEX_nonempty)
  then show "(drop (length m) (c # cs), c # cs) \<in> measure length"
    by (cases m) simp_all
qed simp_all

text \<open>\<open>e.toLowerCase()\<close> on the characters a match can hold (they are ASCII).\<close>

definition toLowerChar :: "char \<Rightarrow> char" where
  "toLowerChar c = (if is_upper c then char_of (code c + 32) else c)"

definition toLowerCase :: "string \<Rightarrow> string" where
  "toLowerCase s = map toLowerChar s"

text \<open>\<open>s.startsWith(p)\<close> and the test of a pattern that is a plain string.\<close>

fun starts_with :: "string \<Rightarrow> string \<Rightarrow> bool" where
  "starts_with s [] = True"
| "starts_with [] (p # ps) = False"
| "starts_with (c # cs) (p # ps) = (c = p \<and> starts_with cs ps)"

fun includes_str :: "string \<Rightarrow> string \<Rightarrow> bool" where
  "includes_str [] p = (p = [])"
| "includes_str (c # cs) p = (starts_with (c # cs) p \<or> includes_str cs p)"

text \<open>\<open>/(example\.com|example\.org|example\.net|noreply@|no-reply@)/.test(e)\<close>\<close>

definition DENY_LIST :: "string list" where
  "DENY_LIST = [''example.com'', ''example.org'', ''example.net'', ''noreply@'', ''no-reply@'']"

definition denied :: "string \<Rightarrow> bool" where
  "denied e = list_ex (includes_str e) DENY_LIST"

text \<open>What a call into the browser or the network does: it throws, or it returns.\<close>

datatype 'a attempt = Throws | Returns 'a

text \<open>
  \<open>extractEmailsFromPage\<close>; its argument is what \<open>page.evaluate\<close> gives for the body's
  inner text.
\<close>

definition extractEmailsFromPage :: "string attempt \<Rightarrow> string list" where
  "extractEmailsFromPage body =
     (case body of
        Throws \<Rightarrow> []
      | Returns text \<Rightarrow> filter (\<lambda>e. \<not> denied e) (map toLowerCase (match_all text)))"

section \<open>Addresses in a page text\<close>

text \<open>
  A syntactically valid address is a string the pattern describes as a whole: a local
  part of one or more characters of the first class, \<open>@\<close>, a domain of one or more
  characters of the second class, a dot, and two or more letters.
\<close>

definition valid_address :: "string \<Rightarrow> bool" where
  "valid_address a =
     (\<exists>l d t. a = l @ CHR ''@'' # d @ CHR ''.'' # t
        \<and> l \<noteq> [] \<and> list_all local_char l
        \<and> d \<noteq> [] \<and> list_all domain_char d
        \<and> 2 \<le> length t \<and> list_all letter_char t)"

text \<open>
  A page text that contains the addresses \<open>a\<^sub>1, \<dots>, a\<^sub>N\<close> and no other: the text is
  \<open>sep\<^sub>1 a\<^sub>1 sep\<^sub>2 a\<^sub>2 \<dots> sep\<^sub>N a\<^sub>N tail\<close>, where the stretches \<open>sep\<close> and \<open>tail\<close> are any
  text (words, digits, punctuation, nothing at all) in which no \<open>@\<close> stands right after
  a local-part character (\<open>free_at\<close>), and every address stands free in the text:
  \<^item> what comes before it does not run into its local part: the stretch is empty or ends
    with a character that no local part can hold (\<open>gap\<close>);
  \<^item> what comes after it does not carry it on (\<open>ends_address\<close>): the text does not go on
    with a letter, and the run of domain characters it starts with holds no dot
    followed by two letters.
\<close>

fun free_at :: "string \<Rightarrow> bool" where
  "free_at (c # d # s) = (\<not> (local_char c \<and> d = CHR ''@'') \<and> free_at (d # s))"
| "free_at s = True"

definition gap :: "string \<Rightarrow> bool" where
  "gap sep = (free_at sep \<and> (sep = [] \<or> \<not> local_char (last sep)))"

fun dot_tld :: "string \<Rightarrow> bool" where
  "dot_tld (c # x # y # s) = (c = CHR ''.'' \<and> letter_char x \<and> letter_char y)"
| "dot_tld s = False"

fun clear_run :: "string \<Rightarrow> bool" where
  "clear_run [] = True"
| "clear_run (c # s) = (\<not> domain_char c \<or> (\<not> dot_tld (c # s) \<and> clear_run s))"

definition ends_address :: "string \<Rightarrow> bool" where
  "ends_address rest = ((rest = [] \<or> \<not> letter_char (hd rest)) \<and> clear_run rest)"

fun page_text :: "(string \<times> string) list \<Rightarrow> string \<Rightarrow> string" where
  "page_text [] tail = tail"
| "page_text ((sep, a) # rest) tail = sep @ a @ page_text rest tail"

fun well_separated :: "(string \<times> string) list \<Rightarrow> string \<Rightarrow> bool" where
  "well_separated [] tail = free_at tail"
| "well_separated ((sep, a) # rest) tail =
     (gap sep \<and> valid_address a \<and> ends_address (page_text rest tail)
      \<and> well_separated rest tail)"

text \<open>
  The deny-list in the specification's words: the placeholder domains \<open>example.com\<close>,
  \<open>example.org\<close>, \<open>example.net\<close> and the local parts beginning with \<open>noreply\<close> or
  \<open>no-reply\<close>, on the lower-cased address. (The code's test is \<open>denied\<close>.)
\<close>

definition local_part :: "string \<Rightarrow> string" where
  "local_part a = takeWhile (\<lambda>c. c \<noteq> CHR ''@'') a"

definition domain_part :: "string \<Rightarrow> string" where
  "domain_part a = drop 1 (dropWhile (\<lambda>c. c \<noteq> CHR ''@'') a)"

definition spec_deny_listed :: "string \<Rightarrow> bool" where
  "spec_deny_listed a =
     (domain_part (toLowerCase a) \<in> set [''example.com'', ''example.org'', ''example.net'']
      \<or> starts_with (local_part (toLowerCase a)) ''noreply''
      \<or> starts_with (local_part (toLowerCase a)) ''no-reply'')"

section \<open>Challenge detection and pagination, as the session sees them\<close>

text \<open>The object \<open>{ present, solved }\<close> that \<open>maybeHandleCaptcha\<close> returns.\<close>

record captcha =
  present :: bool
  solved :: bool

text \<open>
  The ways through \<open>maybeHandleCaptcha\<close>, one for each of its \<open>return\<close> statements: which
  one is taken depends on the page and on the solving service; what is returned on each
  is the code's.
\<close>

datatype detection =
    ProbeError        \<comment> \<open>something in the body throws: the outer \<open>catch\<close>\<close>
  | ConsentAccepted   \<comment> \<open>consent URL, and \<open>tryAcceptConsent\<close> left it\<close>
  | NoChallenge       \<comment> \<open>no challenge indicator\<close>
  | ExtensionWait     \<comment> \<open>no sitekey, extension path configured\<close>
  | NoSitekey         \<comment> \<open>no sitekey found\<close>
  | HelperSolved      \<comment> \<open>\<open>NopechaHelper.solveRecaptchaV2\<close> did not throw\<close>
  | TokenInjected     \<comment> \<open>\<open>solveRecaptchaToken\<close> gave a token\<close>
  | NoToken           \<comment> \<open>\<open>solveRecaptchaToken\<close> gave none\<close>
  | SolveFailed       \<comment> \<open>the token flow throws\<close>

fun maybeHandleCaptcha :: "detection \<Rightarrow> captcha" where
  "maybeHandleCaptcha ProbeError = \<lparr>present = False, solved = False\<rparr>"
| "maybeHandleCaptcha ConsentAccepted = \<lparr>present = True, solved = True\<rparr>"
| "maybeHandleCaptcha NoChallenge = \<lparr>present = False, solved = False\<rparr>"
| "maybeHandleCaptcha ExtensionWait = \<lparr>present = True, solved = False\<rparr>"
| "maybeHandleCaptcha NoSitekey = \<lparr>present = True, solved = False\<rparr>"
| "maybeHandleCaptcha HelperSolved = \<lparr>present = True, solved = True\<rparr>"
| "maybeHandleCaptcha TokenInjected = \<lparr>present = True, solved = True\<rparr>"
| "maybeHandleCaptcha NoToken = \<lparr>present = True, solved = False\<rparr>"
| "maybeHandleCaptcha SolveFailed = \<lparr>present = True, solved = False\<rparr>"

text \<open>
  \<open>goToNextPage\<close> tries its selectors in order. For one selector: no element
  (\<open>Missing\<close>); an element that was scrolled to and clicked (\<open>Activated\<close>, the function
  returns true); or a throw inside the selector's \<open>try\<close> (\<open>Failed\<close>, swallowed, next
  selector). The argument lists what each selector meets, in the order of the source.
\<close>

datatype probe = Missing | Activated | Failed

fun goToNextPage :: "probe list \<Rightarrow> bool" where
  "goToNextPage [] = False"
| "goToNextPage (Activated # ps) = True"
| "goToNextPage (Missing # ps) = goToNextPage ps"
| "goToNextPage (Failed # ps) = goToNextPage ps"

section \<open>The query session\<close>

text \<open>The locals of \<open>runQuery\<close>: the set \<open>collected\<close> (in insertion order) and the two counters.\<close>

record session =
  collected :: "string list"
  pageNum :: nat
  consecutiveCaptcha :: nat

definition init_session :: session where
  "init_session = \<lparr>collected = [], pageNum = 1, consecutiveCaptcha = 0\<rparr>"

text \<open>\<open>collected.add(e)\<close>\<close>

definition set_add :: "string \<Rightarrow> string list \<Rightarrow> string list" where
  "set_add e c = (if e \<in> set c then c else c @ [e])"

text \<open>What the page does during one pass of the loop.\<close>

record page_obs =
  detection :: detection            \<comment> \<open>the way \<open>maybeHandleCaptcha\<close> takes\<close>
  recovery_wait :: bool             \<comment> \<open>\<open>page.waitForTimeout\<close> after a solved challenge resolves\<close>
  body_text :: "string attempt"     \<comment> \<open>the body's inner text\<close>
  clock :: "nat \<Rightarrow> string"           \<comment> \<open>\<open>(new Date()).toISOString()\<close> for the i-th new row\<close>
  next_probes :: "probe list"       \<comment> \<open>what the selectors of \<open>goToNextPage\<close> meet\<close>

text \<open>What a session does, in order.\<close>

datatype event =
    NewContext                \<comment> \<open>\<open>browser.newContext\<close> resolved\<close>
  | NewPage                   \<comment> \<open>\<open>context.newPage\<close> resolved\<close>
  | Goto bool                 \<comment> \<open>the first \<open>page.goto\<close>; false: it threw (logged)\<close>
  | Detect captcha            \<comment> \<open>\<open>maybeHandleCaptcha\<close> returned\<close>
  | RecoveryWait bool         \<comment> \<open>the wait after a solved challenge; false: it threw\<close>
  | Extract "string list"     \<comment> \<open>\<open>extractEmailsFromPage\<close> returned\<close>
  | Seen string               \<comment> \<open>\<open>collected.add\<close>\<close>
  | CsvAppend "row list"      \<comment> \<open>\<open>appendToCSV(rows)\<close>\<close>
  | DbInsert "row list"       \<comment> \<open>\<open>saveToSupabase(rows)\<close>\<close>
  | NextPage bool             \<comment> \<open>\<open>goToNextPage\<close> returned\<close>
  | Pause                     \<comment> \<open>the sleep before the next pass\<close>
  | LogFailed                 \<comment> \<open>the \<open>catch\<close> around the loop\<close>
  | CloseContext bool         \<comment> \<open>\<open>context.close()\<close> in \<open>finally\<close>; false: it threw (ignored)\<close>
  | Done nat                  \<comment> \<open>the closing log line with \<open>collected.size\<close>\<close>

text \<open>How a pass of the loop ends: \<open>pageNum++\<close> and on, \<open>break\<close>, or an exception.\<close>

datatype flow = Continue | Break | Raise

definition unresolved :: "captcha \<Rightarrow> bool" where
  "unresolved c = (present c \<and> \<not> solved c)"

definition make_rows :: "string \<Rightarrow> (nat \<Rightarrow> string) \<Rightarrow> string list \<Rightarrow> row list" where
  "make_rows q clk newEmails =
     map (\<lambda>(i, e). \<lparr>email = e, query = q, timestamp = clk i\<rparr>) (enumerate 0 newEmails)"

text \<open>
  One pass of the \<open>while (true)\<close> loop of \<open>runQuery\<close>, from \<open>maybeHandleCaptcha\<close> to the
  sleep before the next pass.
\<close>

definition iteration :: "string \<Rightarrow> page_obs \<Rightarrow> session \<Rightarrow> flow \<times> session \<times> event list" where
  "iteration q ob st =
     (let c = maybeHandleCaptcha (detection ob);
          st1 = st\<lparr>consecutiveCaptcha :=
                     (if present c \<and> \<not> solved c then consecutiveCaptcha st + 1 else 0)\<rparr>
      in if present c \<and> \<not> solved c \<and> consecutiveCaptcha st1 \<ge> 3
         then (Break, st1, [Detect c])
         else if present c \<and> solved c \<and> \<not> recovery_wait ob
         then (Raise, st1, [Detect c, RecoveryWait False])
         else
           (let emails = extractEmailsFromPage (body_text ob);
                newEmails = filter (\<lambda>e. e \<notin> set (collected st1)) emails;
                st2 = st1\<lparr>collected := fold set_add newEmails (collected st1)\<rparr>;
                rows = make_rows q (clock ob) newEmails;
                hasNext = goToNextPage (next_probes ob);
                evs = [Detect c]
                      @ (if present c \<and> solved c then [RecoveryWait True] else [])
                      @ [Extract emails]
                      @ map Seen newEmails
                      @ (if newEmails \<noteq> [] then [CsvAppend rows, DbInsert rows] else [])
                      @ [NextPage hasNext]
            in if \<not> hasNext then (Break, st2, evs)
               else (Continue, st2\<lparr>pageNum := pageNum st2 + 1\<rparr>, evs @ [Pause])))"

text \<open>
  The loop. It has no bound of its own (\<open>while (true)\<close>), so it is run on the list of what
  the page does pass after pass: \<open>Running\<close> is a session that has used the list up and is
  still in its loop.
\<close>

datatype loop_end = Stopped | Errored | Running

fun loop :: "string \<Rightarrow> page_obs list \<Rightarrow> session \<Rightarrow> loop_end \<times> session \<times> event list" where
  "loop q [] st = (Running, st, [])"
| "loop q (ob # obs) st =
     (case iteration q ob st of
        (Continue, st', evs) \<Rightarrow>
          (case loop q obs st' of (r, st'', evs') \<Rightarrow> (r, st'', evs @ evs'))
      | (Break, st', evs) \<Rightarrow> (Stopped, st', evs)
      | (Raise, st', evs) \<Rightarrow> (Errored, st', evs))"

text \<open>What the browser does for the calls around the loop.\<close>

record launch =
  context_ok :: bool    \<comment> \<open>\<open>browser.newContext\<close> resolves\<close>
  page_ok :: bool       \<comment> \<open>\<open>context.newPage\<close> resolves\<close>
  goto_ok :: bool       \<comment> \<open>the first \<open>page.goto\<close> resolves\<close>
  close_ok :: bool      \<comment> \<open>\<open>context.close\<close> resolves\<close>

text \<open>
  How the promise of \<open>runQuery\<close> ends: fulfilled, rejected (an exception left the
  function), or not yet settled (the loop is still running).
\<close>

datatype settle = Fulfilled | Rejected | Pending

text \<open>
  \<open>runQuery\<close>: \<open>newContext\<close> and \<open>newPage\<close> stand before the \<open>try\<close> blocks, the first
  navigation has a \<open>try\<close> of its own, and the loop is inside \<open>try\<close>/\<open>catch\<close>/\<open>finally\<close>.
\<close>

definition runQuery :: "launch \<Rightarrow> string \<Rightarrow> page_obs list \<Rightarrow> settle \<times> event list" where
  "runQuery l q obs =
     (if \<not> context_ok l then (Rejected, [])
      else if \<not> page_ok l then (Rejected, [NewContext])
      else
        (case loop q obs init_session of
           (Running, st, evs) \<Rightarrow> (Pending, [NewContext, NewPage, Goto (goto_ok l)] @ evs)
         | (Stopped, st, evs) \<Rightarrow>
             (Fulfilled, [NewContext, NewPage, Goto (goto_ok l)] @ evs
                         @ [CloseContext (close_ok l), Done (length (collected st))])
         | (Errored, st, evs) \<Rightarrow>
             (Fulfilled, [NewContext, NewPage, Goto (goto_ok l)] @ evs
                         @ [LogFailed, CloseContext (close_ok l), Done (length (collected st))])))"

text \<open>Counting in a trace.\<close>

definition passes :: "event list \<Rightarrow> nat" where
  "passes evs = length (filter (\<lambda>e. case e of Detect c \<Rightarrow> True | _ \<Rightarrow> False) evs)"

definition extractions :: "event list \<Rightarrow> nat" where
  "extractions evs = length (filter (\<lambda>e. case e of Extract es \<Rightarrow> True | _ \<Rightarrow> False) evs)"

definition acquired :: "event list \<Rightarrow> nat" where
  "acquired evs = length (filter (\<lambda>e. e = NewContext) evs)"

definition released :: "event list \<Rightarrow> nat" where
  "released evs = length (filter (\<lambda>e. case e of CloseContext b \<Rightarrow> True | _ \<Rightarrow> False) evs)"

text \<open>
  Reading a trace against the seen-records set. \<open>seen\<close> is the set as the trace has
  built it so far (it starts as the session's set and grows with every \<open>Seen\<close>), \<open>snap\<close>
  is the set as it was at the last extraction. A handoff is in order when every
  identity it carries was outside the set at the extraction and is inside it by now.
\<close>

fun handoff_ok :: "string set \<Rightarrow> string set \<Rightarrow> event list \<Rightarrow> bool" where
  "handoff_ok seen snap [] = True"
| "handoff_ok seen snap (ev # evs) =
     (case ev of
        Extract es \<Rightarrow> handoff_ok seen seen evs
      | Seen e \<Rightarrow> handoff_ok (insert e seen) snap evs
      | CsvAppend rows \<Rightarrow>
          (\<forall>r \<in> set rows. email r \<notin> snap \<and> email r \<in> seen) \<and> handoff_ok seen snap evs
      | DbInsert rows \<Rightarrow>
          (\<forall>r \<in> set rows. email r \<notin> snap \<and> email r \<in> seen) \<and> handoff_ok seen snap evs
      | _ \<Rightarrow> handoff_ok seen snap evs)"

section \<open>The header of the output file\<close>

text \<open>\<open>fs.readFileSync(OUTPUT_FILE, 'utf-8').split(/\r?\n/)[0] || ''\<close>\<close>

fun first_line :: "string \<Rightarrow> string" where
  "first_line [] = []"
| "first_line (c # cs) =
     (if c = newline then []
      else if c = creturn \<and> starts_with cs [newline] then []
      else c # first_line cs)"

text \<open>The white space and line terminators that \<open>String.prototype.trim\<close> removes.\<close>

definition is_space :: "char \<Rightarrow> bool" where
  "is_space c = (code c \<in> {9, 10, 11, 12, 13, 32, 160})"

definition trim :: "string \<Rightarrow> string" where
  "trim s = rev (dropWhile is_space (rev (dropWhile is_space s)))"

text \<open>\<open>String(n)\<close> for a natural number, as in the template string of the backup's name.\<close>

fun digits :: "nat \<Rightarrow> string" where
  "digits n = (if n < 10 then [char_of (48 + n)] else digits (n div 10) @ [char_of (48 + n mod 10)])"

declare digits.simps [simp del]

text \<open>
  The files: a map from paths to contents. \<open>OUTPUT_FILE\<close> is a path ending in \<open>.csv\<close>;
  \<open>stem\<close> is what stands before that ending.
\<close>

type_synonym files = "string \<rightharpoonup> string"

definition OUTPUT_FILE :: "string \<Rightarrow> string" where
  "OUTPUT_FILE stem = stem @ ''.csv''"

definition backup_file :: "string \<Rightarrow> nat \<Rightarrow> string" where
  "backup_file stem now = stem @ ''.backup-'' @ digits now @ ''.csv''"

text \<open>The calls into \<open>fs\<close> that can throw, and an exit of the process.\<close>

datatype fs_call = ReadFile string | WriteFile string | CopyFile string string

datatype startup = Ready files | Exit nat files

definition ensure_header :: "(fs_call \<Rightarrow> bool) \<Rightarrow> string \<Rightarrow> nat \<Rightarrow> files \<Rightarrow> startup" where
  "ensure_header throws stem now fs =
     (let out = OUTPUT_FILE stem in
      case fs out of
        None \<Rightarrow>
          if throws (WriteFile out) then Exit 1 fs
          else Ready (fs(out \<mapsto> CSV_HEADER @ [newline]))
      | Some content \<Rightarrow>
          if throws (ReadFile out) then Exit 1 fs
          else if trim (first_line content) \<noteq> CSV_HEADER
          then (let backup = backup_file stem now in
                if throws (CopyFile out backup) then Exit 1 fs
                else if throws (WriteFile out) then Exit 1 (fs(backup \<mapsto> content))
                else Ready ((fs(backup \<mapsto> content))(out \<mapsto> CSV_HEADER @ [newline])))
          else Ready fs)"

text \<open>A run in which no call into \<open>fs\<close> throws.\<close>

definition no_faults :: "fs_call \<Rightarrow> bool" where
  "no_faults c = False"

section \<open>The token solver\<close>

text \<open>A reply of the solving service: the status and the text of the body.\<close>

record response =
  status :: nat
  body :: string

text \<open>\<open>res.ok\<close>\<close>

definition ok :: "response \<Rightarrow> bool" where
  "ok r = (200 \<le> status r \<and> status r \<le> 299)"

text \<open>
  The fields the solver reads in a parsed reply. The service's values are strings;
  \<open>None\<close> is a field that is absent.
\<close>

record json =
  j_token :: "string option"
  j_id :: "string option"
  j_data :: "string option"
  j_task :: "string option"
  j_solution :: "string option"

definition empty_json :: json where
  "empty_json = \<lparr>j_token = None, j_id = None, j_data = None, j_task = None, j_solution = None\<rparr>"

text \<open>A value in a condition: absent and the empty string are false.\<close>

definition truthy :: "string option \<Rightarrow> bool" where
  "truthy v = (case v of None \<Rightarrow> False | Some x \<Rightarrow> x \<noteq> [])"

text \<open>\<open>a || b\<close>\<close>

definition or_else :: "string option \<Rightarrow> string option \<Rightarrow> string option" where
  "or_else a b = (if truthy a then a else b)"

text \<open>
  \<open>let data = {}; try { data = JSON.parse(text || '{}'); } catch {}\<close>, with \<open>JSON.parse\<close>
  a parameter (\<open>None\<close>: it throws).
\<close>

definition parse_or_empty :: "(string \<Rightarrow> json option) \<Rightarrow> string \<Rightarrow> json" where
  "parse_or_empty parse text =
     (if text = [] then empty_json
      else case parse text of None \<Rightarrow> empty_json | Some j \<Rightarrow> j)"

text \<open>
  The service, as the solver meets it: the reply to the \<open>POST /token\<close> made for a type, and
  the reply to the i-th \<open>GET\<close> while polling for that type. \<open>Throws\<close> is a \<open>fetch\<close> that
  rejects.
\<close>

record service =
  post :: "string \<Rightarrow> response attempt"
  poll :: "string \<Rightarrow> nat \<Rightarrow> response attempt"

text \<open>
  What the solver does: a \<open>POST\<close> for a type (with or without the \<open>action\<close> parameter), a
  sleep of so many milliseconds, a \<open>GET\<close> for a ticket.
\<close>

datatype api_event = Post string bool | Wait nat | Poll string

text \<open>\<open>/Invalid type/i.test(text)\<close>\<close>

definition invalid_type :: "string \<Rightarrow> bool" where
  "invalid_type text = includes_str (toLowerCase text) ''invalid type''"

text \<open>
  The polling loop \<open>for (let i = 0; i < 20; i++)\<close> for a ticket: \<open>n\<close> rounds are left,
  \<open>i\<close> is the round.
\<close>

fun poll_ticket ::
  "service \<Rightarrow> (string \<Rightarrow> json option) \<Rightarrow> string \<Rightarrow> string \<Rightarrow> nat \<Rightarrow> nat
   \<Rightarrow> string option \<times> api_event list" where
  "poll_ticket svc parse t ident 0 i = (None, [])"
| "poll_ticket svc parse t ident (Suc n) i =
     (case poll svc t i of
        Throws \<Rightarrow>
          (case poll_ticket svc parse t ident n (Suc i) of
             (r, evs) \<Rightarrow> (r, Wait 1500 # Poll ident # evs))
      | Returns res \<Rightarrow>
          if \<not> ok res then
            (case poll_ticket svc parse t ident n (Suc i) of
               (r, evs) \<Rightarrow>
                 (r, Wait 1500 # Poll ident
                       # (if status res = 429 then [Wait 1000] else []) @ evs))
          else
            (let pollData = parse_or_empty parse (body res) in
             if truthy (j_token pollData) then (j_token pollData, [Wait 1500, Poll ident])
             else if truthy (j_solution pollData)
             then (j_solution pollData, [Wait 1500, Poll ident])
             else if truthy (j_data pollData) then (j_data pollData, [Wait 1500, Poll ident])
             else (case poll_ticket svc parse t ident n (Suc i) of
                     (r, evs) \<Rightarrow> (r, Wait 1500 # Poll ident # evs))))"

text \<open>
  The body of \<open>for (const t of types)\<close>: the request for one type. The first component is
  the token the function returns from inside the loop, or \<open>None\<close> when the loop goes on
  to the next type.
\<close>

definition try_type ::
  "service \<Rightarrow> (string \<Rightarrow> json option) \<Rightarrow> string \<Rightarrow> string option \<times> api_event list" where
  "try_type svc parse t =
     (let sent = Post t (t = ''recaptcha3'') in
      case post svc t of
        Throws \<Rightarrow> (None, [sent])
      | Returns res \<Rightarrow>
          if \<not> ok res then
            (if status res = 400 \<and> invalid_type (body res) then (None, [sent])
             else if status res = 429 then (None, [sent, Wait 1000])
             else (None, [sent]))
          else
            (let data = parse_or_empty parse (body res) in
             if truthy (j_token data) then (j_token data, [sent])
             else
               (case or_else (j_id data) (or_else (j_data data) (j_task data)) of
                  None \<Rightarrow> (None, [sent])
                | Some ident \<Rightarrow>
                    if ident = [] then (None, [sent])
                    else (case poll_ticket svc parse t ident 20 0 of
                            (r, evs) \<Rightarrow> (r, sent # evs)))))"

fun solve_types ::
  "service \<Rightarrow> (string \<Rightarrow> json option) \<Rightarrow> string list \<Rightarrow> string option \<times> api_event list" where
  "solve_types svc parse [] = (None, [])"
| "solve_types svc parse (t # ts) =
     (case try_type svc parse t of
        (Some tok, evs) \<Rightarrow> (Some tok, evs)
      | (None, evs) \<Rightarrow>
          (case solve_types svc parse ts of (r, evs') \<Rightarrow> (r, evs @ evs')))"

definition FALLBACK_TYPES :: "string list" where
  "FALLBACK_TYPES = [''recaptcha3'', ''recaptcha'', ''recaptcha_enterprise'']"

text \<open>
  \<open>const types = []; if (typeHint) types.push(typeHint);\<close> and then each fallback type
  that \<open>types\<close> does not include yet.
\<close>

definition candidate_types :: "string option \<Rightarrow> string list" where
  "candidate_types typeHint =
     fold (\<lambda>t types. if t \<in> set types then types else types @ [t]) FALLBACK_TYPES
       (case typeHint of None \<Rightarrow> [] | Some h \<Rightarrow> if h = [] then [] else [h])"

text \<open>\<open>solveRecaptchaToken\<close>; \<open>key\<close> is \<open>NOPECHA_API_KEY\<close>. \<open>None\<close> is the \<open>null\<close> it returns.\<close>

definition solveRecaptchaToken ::
  "string \<Rightarrow> service \<Rightarrow> (string \<Rightarrow> json option) \<Rightarrow> string option
   \<Rightarrow> string option \<times> api_event list" where
  "solveRecaptchaToken key svc parse typeHint =
     (if key = [] then (None, [])
      else solve_types svc parse (candidate_types typeHint))"

text \<open>
  What a reply carries, as the solver reads it. For a reply to a \<open>POST\<close>: the token (a
  2xx reply whose parsed body has a \<open>token\<close>), or else the ticket (\<open>id\<close>, \<open>data\<close> or \<open>task\<close>).
  For a reply to a poll: the token, the solution or the data string, the first that is
  there. A \<open>fetch\<close> that throws and a reply that is not 2xx carry nothing.
\<close>

definition poll_value :: "json \<Rightarrow> string option" where
  "poll_value d =
     (if truthy (j_token d) then j_token d
      else if truthy (j_solution d) then j_solution d
      else if truthy (j_data d) then j_data d
      else None)"

definition reply_token :: "(string \<Rightarrow> json option) \<Rightarrow> response attempt \<Rightarrow> string option" where
  "reply_token parse r =
     (case r of
        Throws \<Rightarrow> None
      | Returns res \<Rightarrow>
          if ok res \<and> truthy (j_token (parse_or_empty parse (body res)))
          then j_token (parse_or_empty parse (body res)) else None)"

definition reply_value :: "(string \<Rightarrow> json option) \<Rightarrow> response attempt \<Rightarrow> string option" where
  "reply_value parse r =
     (case r of
        Throws \<Rightarrow> None
      | Returns res \<Rightarrow> if ok res then poll_value (parse_or_empty parse (body res)) else None)"

definition reply_ticket :: "(string \<Rightarrow> json option) \<Rightarrow> response attempt \<Rightarrow> string option" where
  "reply_ticket parse r =
     (case r of
        Throws \<Rightarrow> None
      | Returns res \<Rightarrow>
          if ok res
          then (let d = parse_or_empty parse (body res)
                in if truthy (or_else (j_id d) (or_else (j_data d) (j_task d)))
                   then or_else (j_id d) (or_else (j_data d) (j_task d)) else None)
          else None)"

text \<open>The sleep that follows a 429 reply.\<close>

definition backoff :: "response attempt \<Rightarrow> api_event list" where
  "backoff r = (case r of Throws \<Rightarrow> [] | Returns res \<Rightarrow> if status res = 429 then [Wait 1000] else [])"

text \<open>Some reply to a request made for the type \<open>t\<close> carries \<open>tok\<close>.\<close>

definition carried :: "service \<Rightarrow> (string \<Rightarrow> json option) \<Rightarrow> string \<Rightarrow> string \<Rightarrow> bool" where
  "carried svc parse t tok =
     (reply_token parse (post svc t) = Some tok
      \<or> (\<exists>i<20. reply_value parse (poll svc t i) = Some tok))"

text \<open>The types of the \<open>POST\<close>s of a trace, in order.\<close>

fun posted :: "api_event list \<Rightarrow> string list" where
  "posted [] = []"
| "posted (Post t a # evs) = t # posted evs"
| "posted (Wait ms # evs) = posted evs"
| "posted (Poll ident # evs) = posted evs"

text \<open>
  A service that rejects the first fallback type as invalid, is rate-limited on the
  second and gives a token for the third; and one that never gives a token.
\<close>

definition picky_service :: service where
  "picky_service =
     \<lparr>post = (\<lambda>t. if t = ''recaptcha3'' then Returns \<lparr>status = 400, body = ''Invalid type''\<rparr>
                  else if t = ''recaptcha'' then Returns \<lparr>status = 429, body = ''slow down''\<rparr>
                  else Returns \<lparr>status = 200, body = ''T''\<rparr>),
      poll = (\<lambda>t i. Throws)\<rparr>"

definition dead_service :: service where
  "dead_service = \<lparr>post = (\<lambda>t. Throws), poll = (\<lambda>t i. Throws)\<rparr>"

text \<open>
  A service that is rate-limited on every type, with a body that says the type is
  invalid; and one that gives a ticket for the first type and, polled, throws, is
  rate-limited, has nothing yet, and then has the solution.
\<close>

definition limited_service :: service where
  "limited_service =
     \<lparr>post = (\<lambda>t. Returns \<lparr>status = 429, body = ''Invalid type''\<rparr>), poll = (\<lambda>t i. Throws)\<rparr>"

definition ticket_service :: service where
  "ticket_service =
     \<lparr>post = (\<lambda>t. if t = ''recaptcha3'' then Returns \<lparr>status = 200, body = ''K''\<rparr> else Throws),
      poll = (\<lambda>t i. if t \<noteq> ''recaptcha3'' \<or> i = 0 then Throws
                     else if i = 1 then Returns \<lparr>status = 429, body = ''slow down''\<rparr>
                     else if i = 2 then Returns \<lparr>status = 200, body = ''W''\<rparr>
                     else Returns \<lparr>status = 200, body = ''S''\<rparr>)\<rparr>"

definition toy_parse :: "string \<Rightarrow> json option" where
  "toy_parse text =
     (if text = ''T'' then Some (empty_json\<lparr>j_token := Some ''tok''\<rparr>)
      else if text = ''K'' then Some (empty_json\<lparr>j_id := Some ''job7''\<rparr>)
      else if text = ''S'' then Some (empty_json\<lparr>j_solution := Some ''sol''\<rparr>)
      else if text = ''W'' then Some empty_json
      else None)"

section \<open>Pages and browsers used as examples\<close>

definition good_launch :: launch where
  "good_launch = \<lparr>context_ok = True, page_ok = True, goto_ok = True, close_ok = True\<rparr>"

text \<open>A page with an unsolved challenge, an address in its text and a link to the next page.\<close>

definition blocked_page :: page_obs where
  "blocked_page = \<lparr>detection = NoSitekey, recovery_wait = True,
     body_text = Returns ''write to Bob@Site.org'', clock = (\<lambda>i. ''T''),
     next_probes = [Activated]\<rparr>"

text \<open>A page with an unsolved challenge and nothing else: no text, no link to a next page.\<close>

definition sorry_page :: page_obs where
  "sorry_page = \<lparr>detection = NoSitekey, recovery_wait = True,
     body_text = Returns [], clock = (\<lambda>i. ''T''),
     next_probes = [Missing, Missing, Missing, Missing]\<rparr>"

text \<open>A results page without a challenge, with two addresses (one of them twice).\<close>

definition results_page :: page_obs where
  "results_page = \<lparr>detection = NoChallenge, recovery_wait = True,
     body_text = Returns ''Bob@Site.org, ann@site.org; bob@site.org'', clock = (\<lambda>i. ''T''),
     next_probes = [Activated]\<rparr>"

text \<open>A page whose challenge was solved, and that is gone when the session waits for it.\<close>

definition crashed_page :: page_obs where
  "crashed_page = \<lparr>detection = TokenInjected, recovery_wait = False,
     body_text = Throws, clock = (\<lambda>i. ''T''),
     next_probes = [Failed, Failed, Failed, Failed]\<rparr>"

text \<open>A page on which detection and extraction both throw, with a link to the next page.\<close>

definition flaky_page :: page_obs where
  "flaky_page = \<lparr>detection = ProbeError, recovery_wait = True,
     body_text = Throws, clock = (\<lambda>i. ''T''),
     next_probes = [Failed, Activated]\<rparr>"

text \<open>
  A results page without a challenge whose only next-page element makes the first
  selector throw.
\<close>

definition stuck_page :: page_obs where
  "stuck_page = \<lparr>detection = NoChallenge, recovery_wait = True,
     body_text = Returns [], clock = (\<lambda>i. ''T''),
     next_probes = [Failed, Missing, Missing, Missing]\<rparr>"

section \<open>Scheduler: partition into batches\<close>

lemma CONCURRENCY_pos: "CONCURRENCY env = Some c \<Longrightarrow> 0 < c"
  by (auto simp: CONCURRENCY_def split: option.splits)

lemma batches_step:
  "idx < length qs \<Longrightarrow> CONCURRENCY env = Some c
   \<Longrightarrow> batches env idx qs = slice qs idx (idx + c) # batches env (idx + c) qs"
  by (subst batches.simps) simp

lemma batches_done: "\<not> idx < length qs \<Longrightarrow> batches env idx qs = []"
  by (subst batches.simps) simp

lemma batches_concat:
  "CONCURRENCY env = Some c \<Longrightarrow> concat (batches env idx qs) = drop idx qs"
proof (induction env idx qs rule: batches.induct)
  case (1 env idx qs)
  show ?case
  proof (cases "idx < length qs")
    case True
    have "concat (batches env idx qs) = take c (drop idx qs) @ drop (idx + c) qs"
      using True 1 by (simp add: batches_step slice_def)
    also have "\<dots> = drop idx qs"
      by (metis add.commute append_take_drop_id drop_drop)
    finally show ?thesis .
  next
    case False
    then show ?thesis by (simp add: batches_done)
  qed
qed

lemma batches_sizes:
  "CONCURRENCY env = Some c \<Longrightarrow> b \<in> set (batches env idx qs)
   \<Longrightarrow> 0 < length b \<and> length b \<le> c"
proof (induction env idx qs rule: batches.induct)
  case (1 env idx qs)
  show ?case
  proof (cases "idx < length qs")
    case True
    from "1.prems" True have "b = slice qs idx (idx + c) \<or> b \<in> set (batches env (idx + c) qs)"
      by (simp add: batches_step)
    then show ?thesis
    proof
      assume "b = slice qs idx (idx + c)"
      then show ?thesis using True CONCURRENCY_pos [OF "1.prems"(1)] by (simp add: slice_def)
    next
      assume "b \<in> set (batches env (idx + c) qs)"
      then show ?thesis using "1.IH" "1.prems"(1) True by simp
    qed
  next
    case False
    then show ?thesis using "1.prems" by (simp add: batches_done)
  qed
qed

lemma batches_full:
  "CONCURRENCY env = Some c \<Longrightarrow> i + 1 < length (batches env idx qs)
   \<Longrightarrow> length (batches env idx qs ! i) = c"
proof (induction env idx qs arbitrary: i rule: batches.induct)
  case (1 env idx qs)
  show ?case
  proof (cases "idx < length qs")
    case True
    have eq: "batches env idx qs = slice qs idx (idx + c) # batches env (idx + c) qs"
      using True "1.prems"(1) by (rule batches_step)
    show ?thesis
    proof (cases i)
      case 0
      with "1.prems" eq have "batches env (idx + c) qs \<noteq> []" by auto
      then have "idx + c < length qs"
        using batches_done [of "idx + c" qs env] by auto
      then show ?thesis using 0 eq by (simp add: slice_def)
    next
      case (Suc j)
      with "1.prems" eq have "j + 1 < length (batches env (idx + c) qs)" by simp
      then show ?thesis using "1.IH" "1.prems"(1) True Suc eq by simp
    qed
  next
    case False
    then show ?thesis using "1.prems" by (simp add: batches_done)
  qed
qed

lemma slice_upt: "slice [0..<n] idx (idx + c) = [idx..<min (idx + c) n]"
  by (simp add: slice_def min_def)


lemma schedule_step:
  "idx < length qs \<Longrightarrow> CONCURRENCY env = Some c
   \<Longrightarrow> schedule order outcome env idx qs
       = map Launch [idx..<min (idx + c) (length qs)]
         @ map (\<lambda>i. Settled i (outcome i)) (order [idx..<min (idx + c) (length qs)])
         @ schedule order outcome env (idx + c) qs"
  by (subst schedule.simps) (simp add: slice_upt Let_def)

lemma schedule_done: "\<not> idx < length qs \<Longrightarrow> schedule order outcome env idx qs = []"
  by (subst schedule.simps) simp

lemma schedule_nan: "schedule order outcome None idx qs = []"
  by (subst schedule.simps) (simp add: CONCURRENCY_def)

lemma barrier_launches:
  "distinct sl \<Longrightarrow> set sl \<inter> S = {} \<Longrightarrow> R \<subseteq> S \<Longrightarrow> \<forall>i \<in> set sl \<union> R. i div c = k
   \<Longrightarrow> barrier_ok c n S R (map Launch sl @ tr) = barrier_ok c n (S \<union> set sl) (R \<union> set sl) tr"
proof (induction sl arbitrary: S R)
  case Nil
  then show ?case by simp
next
  case (Cons i sl)
  have "barrier_ok c n (insert i S) (insert i R) (map Launch sl @ tr)
          = barrier_ok c n (insert i S \<union> set sl) (insert i R \<union> set sl) tr"
    using Cons.prems by (intro Cons.IH) auto
  then show ?case using Cons.prems by auto
qed

lemma barrier_settles:
  "distinct xs \<Longrightarrow> set xs \<subseteq> R \<Longrightarrow> \<forall>i \<in> set xs. \<forall>j<n. j div c = i div c \<longrightarrow> j \<in> S
   \<Longrightarrow> barrier_ok c n S R (map (\<lambda>i. Settled i (f i)) xs @ tr) = barrier_ok c n S (R - set xs) tr"
proof (induction xs arbitrary: R)
  case Nil
  then show ?case by simp
next
  case (Cons i xs)
  have "barrier_ok c n S (R - {i}) (map (\<lambda>i. Settled i (f i)) xs @ tr)
          = barrier_ok c n S (R - {i} - set xs) tr"
    using Cons.prems by (intro Cons.IH) auto
  moreover have "R - {i} - set xs = R - set (i # xs)" by auto
  ultimately show ?case using Cons.prems by simp
qed

lemma same_batch:
  fixes c idx i :: nat
  assumes "c dvd idx" "0 < c" "idx \<le> i" "i < idx + c"
  shows "i div c = idx div c"
proof -
  from assms(1) obtain k where "idx = c * k" by (rule dvdE)
  then have k: "idx = k * c" by (simp add: mult.commute)
  define r where "r = i - idx"
  have i: "i = r + k * c" and r: "r < c" using assms(3,4) k by (simp_all add: r_def)
  have "i div c = k" unfolding i using r assms(2) by simp
  moreover have "idx div c = k" unfolding k using assms(2) by simp
  ultimately show ?thesis by simp
qed

lemma batch_members:
  fixes c idx j :: nat
  assumes "c dvd idx" "0 < c" "j div c = idx div c"
  shows "idx \<le> j \<and> j < idx + c"
proof -
  from assms(1) obtain k where "idx = c * k" by (rule dvdE)
  then have k: "idx = k * c" by (simp add: mult.commute)
  have q: "j div c = k" using assms(2,3) k by simp
  have "j = j div c * c + j mod c" by simp
  then have j: "j = k * c + j mod c" using q by simp
  have "j mod c < c" using assms(2) by simp
  then show ?thesis using j k by linarith
qed

lemma upt_split:
  fixes a b n :: nat
  assumes "a \<le> b" "b \<le> n"
  shows "[a..<b] @ [b..<n] = [a..<n]"
proof -
  obtain k where n: "n = b + k" using assms(2) by (auto simp: le_iff_add)
  show ?thesis unfolding n using upt_add_eq_append [OF assms(1), of k] by simp
qed

lemma barrier_batch:
  assumes "distinct sl" "distinct xs" "set xs = set sl" "set sl \<inter> S = {}"
    and "\<forall>i \<in> set sl. i div c = k"
    and "\<forall>j<n. j div c = k \<longrightarrow> j \<in> S \<union> set sl"
  shows "barrier_ok c n S {} (map Launch sl @ map (\<lambda>i. Settled i (f i)) xs @ tr)
           = barrier_ok c n (S \<union> set sl) {} tr"
proof -
  have "barrier_ok c n S {} (map Launch sl @ map (\<lambda>i. Settled i (f i)) xs @ tr)
        = barrier_ok c n (S \<union> set sl) ({} \<union> set sl) (map (\<lambda>i. Settled i (f i)) xs @ tr)"
  proof (rule barrier_launches [where k = k])
    show "distinct sl" by (rule assms(1))
    show "set sl \<inter> S = {}" by (rule assms(4))
    show "{} \<subseteq> S" by simp
    show "\<forall>i \<in> set sl \<union> {}. i div c = k" using assms(5) by simp
  qed
  also have "\<dots> = barrier_ok c n (S \<union> set sl) (set sl) (map (\<lambda>i. Settled i (f i)) xs @ tr)"
    by simp
  also have "\<dots> = barrier_ok c n (S \<union> set sl) (set sl - set xs) tr"
  proof (rule barrier_settles)
    show "distinct xs" by (rule assms(2))
    show "set xs \<subseteq> set sl" using assms(3) by simp
    show "\<forall>i \<in> set xs. \<forall>j<n. j div c = i div c \<longrightarrow> j \<in> S \<union> set sl"
      using assms(3,5,6) by simp
  qed
  also have "\<dots> = barrier_ok c n (S \<union> set sl) {} tr" using assms(3) by simp
  finally show ?thesis .
qed

lemma barrier_schedule:
  "CONCURRENCY env = Some c \<Longrightarrow> reorders order \<Longrightarrow> c dvd idx
   \<Longrightarrow> barrier_ok c (length qs) {0..<idx} {} (schedule order outcome env idx qs)"
proof (induction order outcome env idx qs rule: schedule.induct)
  case (1 order outcome env idx qs)
  show ?case
  proof (cases "idx < length qs")
    case True
    let ?m = "min (idx + c) (length qs)"
    let ?sl = "[idx..<?m]"
    have pos: "0 < c" using "1.prems"(1) by (rule CONCURRENCY_pos)
    have ds: "distinct ?sl" by simp
    then have "distinct (order ?sl) \<and> set (order ?sl) = set ?sl"
      using "1.prems"(2) unfolding reorders_def by blast
    then have d: "distinct (order ?sl)" and s: "set (order ?sl) = set ?sl" by blast+
    have dj: "set ?sl \<inter> {0..<idx} = {}" by auto
    have b: "\<forall>i \<in> set ?sl. i div c = idx div c"
    proof
      fix i assume "i \<in> set ?sl"
      then have "idx \<le> i" "i < idx + c" by auto
      then show "i div c = idx div c" by (rule same_batch [OF "1.prems"(3) pos])
    qed
    have full: "\<forall>j<length qs. j div c = idx div c \<longrightarrow> j \<in> {0..<idx} \<union> set ?sl"
    proof (intro allI impI)
      fix j assume j: "j < length qs" and "j div c = idx div c"
      then have "idx \<le> j \<and> j < idx + c" by (intro batch_members [OF "1.prems"(3) pos])
      then show "j \<in> {0..<idx} \<union> set ?sl" using j by auto
    qed
    have dv: "c dvd idx + c" using "1.prems"(3) by simp
    have IH: "barrier_ok c (length qs) {0..<idx + c} {} (schedule order outcome env (idx + c) qs)"
      by (rule "1.IH" [OF True "1.prems"(1) refl "1.prems"(1) "1.prems"(2) dv])
    have next_ok: "barrier_ok c (length qs) ({0..<idx} \<union> set ?sl) {}
                     (schedule order outcome env (idx + c) qs)"
    proof (cases "idx + c \<le> length qs")
      case True
      then have "{0..<idx} \<union> set ?sl = {0..<idx + c}" by (auto simp: min_def)
      then show ?thesis using IH by simp
    next
      case False
      then show ?thesis by (simp add: schedule_done)
    qed
    show ?thesis
      unfolding schedule_step [OF True "1.prems"(1)] barrier_batch [OF ds d s dj b full]
      by (rule next_ok)
  next
    case False
    then show ?thesis by (simp add: schedule_done)
  qed
qed

lemma launched_append: "launched (xs @ ys) = launched xs @ launched ys"
  by (induction xs rule: launched.induct) simp_all

lemma launched_Launch: "launched (map Launch sl) = sl"
  by (induction sl) simp_all

lemma launched_Settled: "launched (map (\<lambda>i. Settled i (f i)) xs) = []"
  by (induction xs) simp_all

lemma launched_schedule:
  "CONCURRENCY env = Some c
   \<Longrightarrow> launched (schedule order outcome env idx qs) = [idx..<length qs]"
proof (induction order outcome env idx qs rule: schedule.induct)
  case (1 order outcome env idx qs)
  show ?case
  proof (cases "idx < length qs")
    case True
    have IH: "launched (schedule order outcome env (idx + c) qs) = [idx + c..<length qs]"
      using "1.IH" [OF True "1.prems"] "1.prems" by simp
    have "launched (schedule order outcome env idx qs)
          = [idx..<min (idx + c) (length qs)] @ [idx + c..<length qs]"
      unfolding schedule_step [OF True "1.prems"]
      by (simp add: launched_append launched_Launch launched_Settled IH)
    also have "\<dots> = [idx..<length qs]"
    proof (cases "idx + c \<le> length qs")
      case True
      then show ?thesis by (simp add: min_def upt_split)
    next
      case False
      then show ?thesis by (simp add: min_def)
    qed
    finally show ?thesis .
  next
    case False
    then show ?thesis by (simp add: schedule_done)
  qed
qed


text \<open>
  Claim C8. For every query list and every ceiling \<open>c\<close> (the value of \<open>CONCURRENCY\<close> for a
  numeric setting) the loop takes consecutive slices of the list: put together they are
  the list, none is empty or longer than \<open>c\<close>, every one but the last has exactly \<open>c\<close>
  queries. The sessions are launched in the order of the list, one for each query; and
  in whatever order the sessions of a slice settle, and whether they are fulfilled or
  rejected, the sessions of a slice are all launched before one of them settles, a
  session is launched only when every session of the slices before has settled, and at
  the end all have.
\<close>

theorem scheduler_batches:
  "CONCURRENCY env = Some c \<longrightarrow>
     concat (batches env 0 queries) = queries
     \<and> (\<forall>b \<in> set (batches env 0 queries). 0 < length b \<and> length b \<le> c)
     \<and> (\<forall>i. i + 1 < length (batches env 0 queries)
            \<longrightarrow> length (batches env 0 queries ! i) = c)
     \<and> launched (schedule order outcome env 0 queries) = [0..<length queries]
     \<and> map (\<lambda>i. queries ! i) (launched (schedule order outcome env 0 queries)) = queries
     \<and> (reorders order \<longrightarrow>
          barrier_ok c (length queries) {} {} (schedule order outcome env 0 queries))"
proof (intro conjI ballI allI impI)
  assume c: "CONCURRENCY env = Some c"
  show "concat (batches env 0 queries) = queries"
    using batches_concat [OF c, of 0 queries] by simp
  show l: "launched (schedule order outcome env 0 queries) = [0..<length queries]"
    using c by (rule launched_schedule)
  show "map (\<lambda>i. queries ! i) (launched (schedule order outcome env 0 queries)) = queries"
    unfolding l by (rule map_nth)
  show "barrier_ok c (length queries) {} {} (schedule order outcome env 0 queries)"
    if "reorders order"
    using barrier_schedule [OF c that, of 0 queries outcome] by simp
  show "0 < length b" if "b \<in> set (batches env 0 queries)" for b
    using batches_sizes [OF c that] by simp
  show "length b \<le> c" if "b \<in> set (batches env 0 queries)" for b
    using batches_sizes [OF c that] by simp
  show "length (batches env 0 queries ! i) = c" if "i + 1 < length (batches env 0 queries)" for i
    using c that by (rule batches_full)
qed

lemma batches_seven:
  "batches (Some 3) 0 seven = [[''q0'', ''q1'', ''q2''], [''q3'', ''q4'', ''q5''], [''q6'']]"
  by (simp add: batches.simps slice_def CONCURRENCY_def seven_def)

lemma schedule_seven:
  "schedule rev fifth_fails (Some 3) 0 seven
     = [Launch 0, Launch 1, Launch 2, Settled 2 True, Settled 1 True, Settled 0 True,
        Launch 3, Launch 4, Launch 5, Settled 5 True, Settled 4 False, Settled 3 True,
        Launch 6, Settled 6 True]"
  by code_simp

lemma reorders_rev: "reorders rev"
  by (simp add: reorders_def)

theorem scheduler_batches_witness:
  "CONCURRENCY (Some 3) = Some 3
   \<and> reorders rev
   \<and> map length (batches (Some 3) 0 seven) = [3, 3, 1]
   \<and> concat (batches (Some 3) 0 seven) = seven
   \<and> schedule rev fifth_fails (Some 3) 0 seven
       = [Launch 0, Launch 1, Launch 2, Settled 2 True, Settled 1 True, Settled 0 True,
          Launch 3, Launch 4, Launch 5, Settled 5 True, Settled 4 False, Settled 3 True,
          Launch 6, Settled 6 True]
   \<and> barrier_ok 3 7 {} {} (schedule rev fifth_fails (Some 3) 0 seven)"
proof -
  have c: "CONCURRENCY (Some 3) = Some 3" by (simp add: CONCURRENCY_def)
  have "barrier_ok 3 (length seven) {} {} (schedule rev fifth_fails (Some 3) 0 seven)
        \<and> concat (batches (Some 3) 0 seven) = seven"
    using scheduler_batches [of "Some 3" 3 seven rev fifth_fails] c reorders_rev by blast
  moreover have "length seven = 7" by (simp add: seven_def)
  ultimately have "barrier_ok 3 7 {} {} (schedule rev fifth_fails (Some 3) 0 seven)
        \<and> concat (batches (Some 3) 0 seven) = seven" by simp
  then show ?thesis
    using c reorders_rev batches_seven schedule_seven by simp
qed


text \<open>
  With a setting that is not a number the constant is \<open>NaN\<close>, not a ceiling: the loop
  takes one empty slice and launches no session.
\<close>

lemma scheduler_without_ceiling:
  "queries \<noteq> [] \<Longrightarrow> batches None 0 queries = [[]] \<and> schedule order outcome None 0 queries = []"
  by (subst batches.simps) (simp add: CONCURRENCY_def schedule_nan)

section \<open>Persistence: the rows of the delimited file\<close>

lemma csv_line_ignores_query: "csv_line (r\<lparr>query := q\<rparr>) = csv_line r"
  by (simp add: csv_line_def)

text \<open>
  Claim C1. The batch handed over has the three fields, but the line \<open>appendToCSV\<close>
  writes for a record has two: under the header \<open>email,query,timestamp\<close> the record
  \<open>{email: a@b.io, query: plumber, timestamp: 2024-01-01T00:00:00.000Z}\<close> becomes the
  line \<open>a@b.io,2024-01-01T00:00:00.000Z\<close>, without its query. \<open>saveToSupabase\<close>,
  given the same batch, stores the timestamp and the address of each record.
\<close>

theorem appendToCSV_two_fields:
  "appendToCSV False
      [\<lparr>email = ''a@b.io'', query = ''plumber'', timestamp = ''2024-01-01T00:00:00.000Z''\<rparr>]
      (CSV_HEADER @ [newline])
    = ''email,query,timestamp'' @ [newline] @ ''a@b.io,2024-01-01T00:00:00.000Z'' @ [newline]
   \<and> csv_fields (csv_line
        \<lparr>email = ''a@b.io'', query = ''plumber'', timestamp = ''2024-01-01T00:00:00.000Z''\<rparr>)
      = [''a@b.io'', ''2024-01-01T00:00:00.000Z'']
   \<and> length (csv_fields CSV_HEADER) = 3
   \<and> supabase_inserts
        [\<lparr>email = ''a@b.io'', query = ''plumber'', timestamp = ''2024-01-01T00:00:00.000Z''\<rparr>]
      = [\<lparr>created_at = ''2024-01-01T00:00:00.000Z'', email_col = ''a@b.io''\<rparr>]"
  by (simp add: appendToCSV_def csv_content_def csv_line_def escapeCsv_def CSV_HEADER_def
      csv_fields_def supabase_inserts_def)

section \<open>The session loop\<close>

lemma extract_blocked_page:
  "extractEmailsFromPage (Returns ''write to Bob@Site.org'') = [''bob@site.org'']"
  by code_simp

lemma extract_results_page:
  "extractEmailsFromPage (Returns ''Bob@Site.org, ann@site.org; bob@site.org'')
     = [''bob@site.org'', ''ann@site.org'', ''bob@site.org'']"
  by code_simp

lemma passes_simps [simp]:
  "passes [] = 0"
  "passes (Detect c # evs) = Suc (passes evs)"
  "passes (RecoveryWait b # evs) = passes evs"
  "passes (Extract es # evs) = passes evs"
  "passes (Seen e # evs) = passes evs"
  "passes (CsvAppend rows # evs) = passes evs"
  "passes (DbInsert rows # evs) = passes evs"
  "passes (NextPage b # evs) = passes evs"
  "passes (Pause # evs) = passes evs"
  "passes (NewContext # evs) = passes evs"
  "passes (NewPage # evs) = passes evs"
  "passes (Goto b # evs) = passes evs"
  "passes (LogFailed # evs) = passes evs"
  "passes (CloseContext b # evs) = passes evs"
  "passes (Done n # evs) = passes evs"
  "passes (xs @ ys) = passes xs + passes ys"
  "passes (map Seen es) = 0"
  by (simp_all add: passes_def filter_map comp_def)

lemma iteration_passes: "passes (snd (snd (iteration q ob st))) = 1"
  by (simp add: iteration_def Let_def)

lemma iteration_counter:
  "consecutiveCaptcha (fst (snd (iteration q ob st)))
     = (if unresolved (maybeHandleCaptcha (detection ob)) then consecutiveCaptcha st + 1 else 0)"
  by (simp add: iteration_def Let_def unresolved_def)

lemma iteration_blocked:
  "unresolved (maybeHandleCaptcha (detection ob)) \<Longrightarrow> 2 \<le> consecutiveCaptcha st
   \<Longrightarrow> fst (iteration q ob st) = Break"
  by (simp add: iteration_def Let_def unresolved_def)

lemma iteration_unresolved_flow:
  "unresolved (maybeHandleCaptcha (detection ob)) \<Longrightarrow> consecutiveCaptcha st < 2
   \<Longrightarrow> fst (iteration q ob st) = (if goToNextPage (next_probes ob) then Continue else Break)"
  by (simp add: iteration_def Let_def unresolved_def)

lemma loop_Cons:
  "loop q (ob # obs) st =
     (case fst (iteration q ob st) of
        Continue \<Rightarrow>
          (fst (loop q obs (fst (snd (iteration q ob st)))),
           fst (snd (loop q obs (fst (snd (iteration q ob st))))),
           snd (snd (iteration q ob st))
             @ snd (snd (loop q obs (fst (snd (iteration q ob st))))))
      | Break \<Rightarrow> (Stopped, snd (iteration q ob st))
      | Raise \<Rightarrow> (Errored, snd (iteration q ob st)))"
  by (cases "iteration q ob st") (auto split: flow.splits prod.splits)

lemma loop_passes_bound:
  "\<forall>ob \<in> set obs. unresolved (maybeHandleCaptcha (detection ob))
   \<Longrightarrow> passes (snd (snd (loop q obs st))) \<le> 3 - min 2 (consecutiveCaptcha st)"
proof (induction obs arbitrary: st)
  case Nil
  then show ?case by simp
next
  case (Cons ob obs)
  let ?it = "iteration q ob st"
  have u: "unresolved (maybeHandleCaptcha (detection ob))" using Cons.prems by simp
  show ?case
  proof (cases "2 \<le> consecutiveCaptcha st")
    case True
    then have "fst ?it = Break" using u by (rule iteration_blocked [rotated])
    then show ?thesis by (simp add: loop_Cons iteration_passes del: loop.simps)
  next
    case False
    then have lt: "consecutiveCaptcha st < 2" by simp
    have IH: "passes (snd (snd (loop q obs (fst (snd ?it)))))
                \<le> 3 - min 2 (consecutiveCaptcha st + 1)"
      using Cons.IH [of "fst (snd ?it)"] Cons.prems u by (simp add: iteration_counter)
    show ?thesis
    proof (cases "goToNextPage (next_probes ob)")
      case True
      then have "fst ?it = Continue" using u lt by (simp add: iteration_unresolved_flow)
      then show ?thesis using IH lt by (simp add: loop_Cons iteration_passes del: loop.simps)
    next
      case False
      then have "fst ?it = Break" using u lt by (simp add: iteration_unresolved_flow)
      then show ?thesis using lt by (simp add: loop_Cons iteration_passes del: loop.simps)
    qed
  qed
qed

lemma loop_three_blocked:
  assumes u: "\<forall>ob \<in> set obs. unresolved (maybeHandleCaptcha (detection ob))"
    and len: "3 \<le> length obs"
    and adv: "\<forall>ob \<in> set (take 2 obs). goToNextPage (next_probes ob)"
    and c0: "consecutiveCaptcha st = 0"
  shows "fst (loop q obs st) = Stopped \<and> passes (snd (snd (loop q obs st))) = 3"
proof -
  from len obtain o1 o2 o3 rest where obs: "obs = o1 # o2 # o3 # rest"
    by (cases obs; cases "tl obs"; cases "tl (tl obs)") auto
  let ?i1 = "iteration q o1 st"
  let ?s1 = "fst (snd ?i1)"
  let ?i2 = "iteration q o2 ?s1"
  let ?s2 = "fst (snd ?i2)"
  let ?i3 = "iteration q o3 ?s2"
  have f1: "fst ?i1 = Continue" using u adv c0 obs by (simp add: iteration_unresolved_flow)
  have c1: "consecutiveCaptcha ?s1 = 1" using u c0 obs by (simp add: iteration_counter)
  have f2: "fst ?i2 = Continue" using u adv c1 obs by (simp add: iteration_unresolved_flow)
  have c2: "consecutiveCaptcha ?s2 = 2" using u c1 obs by (simp add: iteration_counter)
  have f3: "fst ?i3 = Break" using u c2 obs by (simp add: iteration_blocked)
  show ?thesis
    unfolding obs by (simp add: loop_Cons f1 f2 f3 iteration_passes del: loop.simps)
qed

lemma loop_short_running:
  assumes u: "\<forall>ob \<in> set obs. unresolved (maybeHandleCaptcha (detection ob))"
    and len: "length obs < 3"
    and adv: "\<forall>ob \<in> set obs. goToNextPage (next_probes ob)"
    and c0: "consecutiveCaptcha st = 0"
  shows "fst (loop q obs st) = Running"
proof -
  consider "obs = []" | o1 where "obs = [o1]" | o1 o2 where "obs = [o1, o2]"
    using len by (cases obs; cases "tl obs"; cases "tl (tl obs)") auto
  then show ?thesis
  proof cases
    case 1
    then show ?thesis by simp
  next
    case 2
    have "fst (iteration q o1 st) = Continue"
      using u adv c0 2 by (simp add: iteration_unresolved_flow)
    then show ?thesis unfolding 2 by (simp add: loop_Cons del: loop.simps(2))
  next
    case 3
    let ?s1 = "fst (snd (iteration q o1 st))"
    have f1: "fst (iteration q o1 st) = Continue"
      using u adv c0 3 by (simp add: iteration_unresolved_flow)
    have c1: "consecutiveCaptcha ?s1 = 1" using u c0 3 by (simp add: iteration_counter)
    have f2: "fst (iteration q o2 ?s1) = Continue"
      using u adv c1 3 by (simp add: iteration_unresolved_flow)
    show ?thesis unfolding 3 by (simp add: loop_Cons f1 f2 del: loop.simps(2))
  qed
qed

text \<open>
  Claim C2, as the claim has it, fails on the third pass under an unsolved challenge: the
  session \<open>break\<close>s right after detection, and the address still on the page is not looked
  for. Three passes, two extractions.
\<close>

theorem no_extraction_on_third_blocked_pass:
  "runQuery good_launch ''q'' [blocked_page, blocked_page, blocked_page]
    = (Fulfilled,
       [NewContext, NewPage, Goto True,
        Detect \<lparr>present = True, solved = False\<rparr>, Extract [''bob@site.org''],
        Seen ''bob@site.org'',
        CsvAppend [\<lparr>email = ''bob@site.org'', query = ''q'', timestamp = ''T''\<rparr>],
        DbInsert [\<lparr>email = ''bob@site.org'', query = ''q'', timestamp = ''T''\<rparr>],
        NextPage True, Pause,
        Detect \<lparr>present = True, solved = False\<rparr>, Extract [''bob@site.org''],
        NextPage True, Pause,
        Detect \<lparr>present = True, solved = False\<rparr>,
        CloseContext True, Done 1])
   \<and> passes (snd (runQuery good_launch ''q'' [blocked_page, blocked_page, blocked_page])) = 3
   \<and> extractions (snd (runQuery good_launch ''q'' [blocked_page, blocked_page, blocked_page])) = 2"
  by (simp add: runQuery_def good_launch_def blocked_page_def iteration_def init_session_def
      extract_blocked_page make_rows_def set_add_def Let_def extractions_def)

text \<open>
  Claim C2, amended. A pass of the loop attempts extraction whatever the challenge
  classification is, unless it is the pass on which the count of consecutive unsolved
  challenges reaches 3 (the session stops there, before extraction) or the wait after a
  solved challenge throws.
\<close>

theorem extraction_unless_stopped:
  assumes "c = maybeHandleCaptcha (detection ob)"
    and "\<not> (present c \<and> \<not> solved c \<and> consecutiveCaptcha st + 1 \<ge> 3)"
    and "\<not> (present c \<and> solved c \<and> \<not> recovery_wait ob)"
  shows "Extract (extractEmailsFromPage (body_text ob)) \<in> set (snd (snd (iteration q ob st)))"
  using assms by (auto simp: iteration_def Let_def)

theorem extraction_unless_stopped_witness:
  "present (maybeHandleCaptcha (detection blocked_page))
   \<and> \<not> solved (maybeHandleCaptcha (detection blocked_page))
   \<and> consecutiveCaptcha (init_session\<lparr>consecutiveCaptcha := 1\<rparr>) + 1 < 3
   \<and> Extract [''bob@site.org'']
       \<in> set (snd (snd (iteration ''q'' blocked_page (init_session\<lparr>consecutiveCaptcha := 1\<rparr>))))"
  using extraction_unless_stopped
    [of "maybeHandleCaptcha (detection blocked_page)" blocked_page
        "init_session\<lparr>consecutiveCaptcha := 1\<rparr>" "''q''"]
  by (simp add: blocked_page_def init_session_def extract_blocked_page)

text \<open>
  Claim C3, as the claim has it, fails when the paginator finds no next page: a session
  whose every pass reports an unsolved challenge then ends after one pass, not three.
\<close>

theorem blocked_session_ends_after_one_pass:
  "unresolved (maybeHandleCaptcha (detection sorry_page))
   \<and> runQuery good_launch ''q'' [sorry_page, sorry_page, sorry_page]
      = (Fulfilled,
         [NewContext, NewPage, Goto True,
          Detect \<lparr>present = True, solved = False\<rparr>, Extract [], NextPage False,
          CloseContext True, Done 0])
   \<and> passes (snd (runQuery good_launch ''q'' [sorry_page, sorry_page, sorry_page])) = 1"
  by (simp add: runQuery_def good_launch_def sorry_page_def iteration_def init_session_def
      extractEmailsFromPage_def make_rows_def Let_def unresolved_def)

text \<open>
  Claim C3, amended. In a session whose every pass reports a challenge present and
  unsolved, there are never more than 3 passes; when the paginator finds a next page on
  the first two, the session stops on exactly the third pass (and is still running
  before it); it stops earlier only when the paginator reports no next page. A pass
  whose challenge is clear or solved sets the counter of consecutive unsolved
  challenges to zero.
\<close>

theorem blocked_after_three:
  "((\<forall>ob \<in> set obs. unresolved (maybeHandleCaptcha (detection ob))) \<longrightarrow>
      passes (snd (snd (loop q obs init_session))) \<le> 3
      \<and> (3 \<le> length obs \<and> (\<forall>ob \<in> set (take 2 obs). goToNextPage (next_probes ob)) \<longrightarrow>
           fst (loop q obs init_session) = Stopped
           \<and> passes (snd (snd (loop q obs init_session))) = 3)
      \<and> (length obs < 3 \<and> (\<forall>ob \<in> set obs. goToNextPage (next_probes ob)) \<longrightarrow>
           fst (loop q obs init_session) = Running))
   \<and> (\<not> unresolved (maybeHandleCaptcha (detection ob)) \<longrightarrow>
        consecutiveCaptcha (fst (snd (iteration q ob st))) = 0)"
proof (intro conjI impI)
  assume u: "\<forall>ob \<in> set obs. unresolved (maybeHandleCaptcha (detection ob))"
  show "passes (snd (snd (loop q obs init_session))) \<le> 3"
    using loop_passes_bound [OF u, of q init_session] by (simp add: init_session_def)
next
  assume u: "\<forall>ob \<in> set obs. unresolved (maybeHandleCaptcha (detection ob))"
    and h: "3 \<le> length obs \<and> (\<forall>ob \<in> set (take 2 obs). goToNextPage (next_probes ob))"
  have "fst (loop q obs init_session) = Stopped
        \<and> passes (snd (snd (loop q obs init_session))) = 3"
    using u h by (intro loop_three_blocked) (simp_all add: init_session_def)
  then show "fst (loop q obs init_session) = Stopped"
    and "passes (snd (snd (loop q obs init_session))) = 3" by simp_all
next
  assume u: "\<forall>ob \<in> set obs. unresolved (maybeHandleCaptcha (detection ob))"
    and h: "length obs < 3 \<and> (\<forall>ob \<in> set obs. goToNextPage (next_probes ob))"
  show "fst (loop q obs init_session) = Running"
    using u h by (intro loop_short_running) (simp_all add: init_session_def)
next
  assume "\<not> unresolved (maybeHandleCaptcha (detection ob))"
  then show "consecutiveCaptcha (fst (snd (iteration q ob st))) = 0"
    by (simp add: iteration_counter)
qed

theorem blocked_after_three_witness:
  "unresolved (maybeHandleCaptcha (detection blocked_page))
   \<and> goToNextPage (next_probes blocked_page)
   \<and> fst (loop ''q'' [blocked_page, blocked_page, blocked_page, blocked_page] init_session)
       = Stopped
   \<and> passes (snd (snd (loop ''q'' [blocked_page, blocked_page, blocked_page, blocked_page]
                          init_session))) = 3
   \<and> \<not> unresolved (maybeHandleCaptcha (detection results_page))
   \<and> consecutiveCaptcha (fst (snd (iteration ''q'' results_page
                                      (init_session\<lparr>consecutiveCaptcha := 2\<rparr>)))) = 0"
  using blocked_after_three
    [where obs = "[blocked_page, blocked_page, blocked_page, blocked_page]" and q = "''q''"
       and ob = results_page and st = "init_session\<lparr>consecutiveCaptcha := 2\<rparr>"]
  by (simp add: blocked_page_def results_page_def unresolved_def)

section \<open>Failures inside a pass\<close>

lemma iteration_starts_with_detect:
  "\<exists>rest. snd (snd (iteration q ob st)) = Detect (maybeHandleCaptcha (detection ob)) # rest"
  by (simp add: iteration_def Let_def)

lemma loop_starts_with_detect:
  "\<exists>rest. snd (snd (loop q (ob # obs) st)) = Detect (maybeHandleCaptcha (detection ob)) # rest"
  using iteration_starts_with_detect [of q ob st]
  by (auto simp: loop_Cons split: flow.splits simp del: loop.simps)

lemma iteration_raise_iff:
  "fst (iteration q ob st) = Raise
   \<longleftrightarrow> present (maybeHandleCaptcha (detection ob)) \<and> solved (maybeHandleCaptcha (detection ob))
       \<and> \<not> recovery_wait ob"
  by (simp add: iteration_def Let_def)

lemma iteration_flow_body_text:
  "fst (iteration q (ob\<lparr>body_text := t\<rparr>) st) = fst (iteration q ob st)"
  by (simp add: iteration_def Let_def)

text \<open>
  Claim C5, as the claim has it, fails for an error that leaves the loop body: the wait
  after a solved challenge throws (the page is gone), the \<open>catch\<close> around the whole loop
  logs it, and the session is over after this one pass, the next page never looked at.
\<close>

theorem thrown_error_ends_session:
  "runQuery good_launch ''q'' [crashed_page, results_page]
    = (Fulfilled,
       [NewContext, NewPage, Goto True,
        Detect \<lparr>present = True, solved = True\<rparr>, RecoveryWait False,
        LogFailed, CloseContext True, Done 0])
   \<and> passes (snd (runQuery good_launch ''q'' [crashed_page, results_page])) = 1"
  by (simp add: runQuery_def good_launch_def crashed_page_def iteration_def init_session_def
      Let_def)

lemma goToNextPage_iff: "goToNextPage ps \<longleftrightarrow> Activated \<in> set ps"
  by (induction ps rule: goToNextPage.induct) simp_all

lemma goToNextPage_failed:
  "goToNextPage (ps @ Failed # ps') = goToNextPage (ps @ Missing # ps')"
  by (simp add: goToNextPage_iff)

lemma iteration_failed_probe:
  "iteration q (ob\<lparr>next_probes := ps @ Failed # ps'\<rparr>) st
     = iteration q (ob\<lparr>next_probes := ps @ Missing # ps'\<rparr>) st"
  by (simp add: iteration_def Let_def goToNextPage_failed)

lemma iteration_no_next:
  "Activated \<notin> set (next_probes ob) \<Longrightarrow> fst (iteration q ob st) \<noteq> Raise
   \<Longrightarrow> fst (iteration q ob st) = Break"
  by (simp add: iteration_def Let_def goToNextPage_iff split: if_splits)

text \<open>
  Claim C5, amended. A failure inside challenge detection or inside extraction is caught
  inside that step and does not end the session by itself: a detection that throws
  counts as no challenge, a failed extraction yields no records and changes nothing in
  how the pass ends, and
  when the paginator advances the loop goes on and the next pass starts with detection.
  A throw at a selector of the paginator is swallowed too and counts as that selector
  finding no element: the pass ends exactly as it would with the element missing, so the
  loop goes on when some selector is activated, and when none is the session stops as
  with no next page. The one error that leaves the loop body, the wait after a solved
  challenge, is caught outside the loop: the session logs it and ends with that pass.
\<close>

theorem failures_inside_a_pass:
  "(detection ob = ProbeError \<and> Activated \<in> set (next_probes ob) \<longrightarrow>
      fst (iteration q ob st) = Continue)
   \<and> iteration q (ob\<lparr>detection := ProbeError\<rparr>) st
       = iteration q (ob\<lparr>detection := NoChallenge\<rparr>) st
   \<and> extractEmailsFromPage Throws = []
   \<and> fst (iteration q (ob\<lparr>body_text := Throws\<rparr>) st) = fst (iteration q ob st)
   \<and> iteration q (ob\<lparr>next_probes := ps @ Failed # ps'\<rparr>) st
       = iteration q (ob\<lparr>next_probes := ps @ Missing # ps'\<rparr>) st
   \<and> (fst (iteration q ob st) = Continue \<longrightarrow>
        Activated \<in> set (next_probes ob)
        \<and> (\<exists>rest. snd (snd (loop q (ob # ob' # obs) st))
                  = snd (snd (iteration q ob st))
                    @ Detect (maybeHandleCaptcha (detection ob')) # rest))
   \<and> (Activated \<notin> set (next_probes ob) \<and> fst (iteration q ob st) \<noteq> Raise \<longrightarrow>
        fst (iteration q ob st) = Break \<and> fst (loop q (ob # obs) st) = Stopped)
   \<and> (fst (iteration q ob st) = Raise \<longleftrightarrow>
        present (maybeHandleCaptcha (detection ob)) \<and> solved (maybeHandleCaptcha (detection ob))
        \<and> \<not> recovery_wait ob)
   \<and> (fst (iteration q ob st) = Raise \<longrightarrow>
        fst (loop q (ob # obs) st) = Errored
        \<and> snd (snd (loop q (ob # obs) st))
            = [Detect (maybeHandleCaptcha (detection ob)), RecoveryWait False])"
proof (intro conjI impI)
  assume "detection ob = ProbeError \<and> Activated \<in> set (next_probes ob)"
  then show "fst (iteration q ob st) = Continue"
    by (simp add: iteration_def Let_def goToNextPage_iff)
next
  show "iteration q (ob\<lparr>detection := ProbeError\<rparr>) st
       = iteration q (ob\<lparr>detection := NoChallenge\<rparr>) st"
    by (simp add: iteration_def Let_def)
next
  show "extractEmailsFromPage Throws = []" by (simp add: extractEmailsFromPage_def)
next
  show "fst (iteration q (ob\<lparr>body_text := Throws\<rparr>) st) = fst (iteration q ob st)"
    by (rule iteration_flow_body_text)
next
  show "iteration q (ob\<lparr>next_probes := ps @ Failed # ps'\<rparr>) st
       = iteration q (ob\<lparr>next_probes := ps @ Missing # ps'\<rparr>) st"
    by (rule iteration_failed_probe)
next
  assume c: "fst (iteration q ob st) = Continue"
  show "Activated \<in> set (next_probes ob)"
  proof (rule ccontr)
    assume "Activated \<notin> set (next_probes ob)"
    then have "fst (iteration q ob st) = Break" using c by (intro iteration_no_next) simp_all
    then show False using c by simp
  qed
  obtain rest where
    "snd (snd (loop q (ob' # obs) (fst (snd (iteration q ob st)))))
       = Detect (maybeHandleCaptcha (detection ob')) # rest"
    using loop_starts_with_detect by blast
  then show "\<exists>rest. snd (snd (loop q (ob # ob' # obs) st))
                  = snd (snd (iteration q ob st))
                    @ Detect (maybeHandleCaptcha (detection ob')) # rest"
    using c by (subst loop_Cons) simp
next
  assume a: "Activated \<notin> set (next_probes ob) \<and> fst (iteration q ob st) \<noteq> Raise"
  then show b: "fst (iteration q ob st) = Break" by (intro iteration_no_next) simp_all
  show "fst (loop q (ob # obs) st) = Stopped"
    using b by (subst loop_Cons) simp
next
  show "fst (iteration q ob st) = Raise \<longleftrightarrow>
        present (maybeHandleCaptcha (detection ob)) \<and> solved (maybeHandleCaptcha (detection ob))
        \<and> \<not> recovery_wait ob"
    by (rule iteration_raise_iff)
next
  assume r: "fst (iteration q ob st) = Raise"
  then show "fst (loop q (ob # obs) st) = Errored"
    by (subst loop_Cons) simp
  from r have w: "present (maybeHandleCaptcha (detection ob))
      \<and> solved (maybeHandleCaptcha (detection ob)) \<and> \<not> recovery_wait ob"
    by (simp add: iteration_raise_iff)
  then have "snd (snd (iteration q ob st))
      = [Detect (maybeHandleCaptcha (detection ob)), RecoveryWait False]"
    by (simp add: iteration_def Let_def)
  then show "snd (snd (loop q (ob # obs) st))
            = [Detect (maybeHandleCaptcha (detection ob)), RecoveryWait False]"
    using r by (subst loop_Cons) simp
qed

theorem failures_inside_a_pass_witness:
  "detection flaky_page = ProbeError \<and> Activated \<in> set (next_probes flaky_page)
   \<and> fst (iteration ''q'' flaky_page init_session) = Continue
   \<and> snd (snd (loop ''q'' [flaky_page, results_page] init_session))
       = [Detect \<lparr>present = False, solved = False\<rparr>, Extract [], NextPage True, Pause,
          Detect \<lparr>present = False, solved = False\<rparr>,
          Extract [''bob@site.org'', ''ann@site.org'', ''bob@site.org''],
          Seen ''bob@site.org'', Seen ''ann@site.org'', Seen ''bob@site.org'',
          CsvAppend [\<lparr>email = ''bob@site.org'', query = ''q'', timestamp = ''T''\<rparr>,
                     \<lparr>email = ''ann@site.org'', query = ''q'', timestamp = ''T''\<rparr>,
                     \<lparr>email = ''bob@site.org'', query = ''q'', timestamp = ''T''\<rparr>],
          DbInsert [\<lparr>email = ''bob@site.org'', query = ''q'', timestamp = ''T''\<rparr>,
                    \<lparr>email = ''ann@site.org'', query = ''q'', timestamp = ''T''\<rparr>,
                    \<lparr>email = ''bob@site.org'', query = ''q'', timestamp = ''T''\<rparr>],
          NextPage True, Pause]
   \<and> Activated \<notin> set (next_probes stuck_page)
   \<and> fst (iteration ''q'' stuck_page init_session) = Break
   \<and> loop ''q'' [stuck_page, results_page] init_session
       = (Stopped, init_session,
          [Detect \<lparr>present = False, solved = False\<rparr>, Extract [], NextPage False])
   \<and> fst (iteration ''q'' crashed_page init_session) = Raise
   \<and> fst (loop ''q'' [crashed_page, results_page] init_session) = Errored"
  using failures_inside_a_pass
    [where ob = flaky_page and q = "''q''" and st = init_session and ob' = results_page
       and obs = "[]"]
    failures_inside_a_pass
    [where ob = stuck_page and q = "''q''" and st = init_session and obs = "[results_page]"]
    failures_inside_a_pass
    [where ob = crashed_page and q = "''q''" and st = init_session and obs = "[results_page]"]
  by (simp add: flaky_page_def crashed_page_def results_page_def stuck_page_def iteration_def
      init_session_def Let_def extractEmailsFromPage_def [of Throws]
      extractEmailsFromPage_def [of "Returns []"] extract_results_page make_rows_def
      set_add_def)

section \<open>The seen-records set\<close>

lemma set_fold_set_add: "set (fold set_add es c) = set c \<union> set es"
  by (induction es arbitrary: c) (auto simp: set_add_def)

lemma email_make_rows: "email ` set (make_rows q clk es) = set es"
proof -
  have "map email (make_rows q clk es) = map snd (enumerate 0 es)"
    by (simp add: make_rows_def case_prod_unfold comp_def)
  then have "map email (make_rows q clk es) = es" by simp
  then have "set (map email (make_rows q clk es)) = set es" by simp
  then show ?thesis by simp
qed

lemma rows_fresh:
  "r \<in> set (make_rows q clk (filter (\<lambda>e. e \<notin> S) es)) \<Longrightarrow> email r \<notin> S"
  using email_make_rows [of q clk "filter (\<lambda>e. e \<notin> S) es"] by auto

lemma rows_new:
  "r \<in> set (make_rows q clk es) \<Longrightarrow> email r \<in> set es"
  using email_make_rows [of q clk es] by auto

lemma handoff_ok_Seen:
  "handoff_ok S snap (map Seen es @ evs) = handoff_ok (S \<union> set es) snap evs"
  by (induction es arbitrary: S) simp_all

lemma handoff_ok_iteration:
  "handoff_ok (set (collected st)) snap (snd (snd (iteration q ob st)) @ evs)
   = (if fst (iteration q ob st) = Continue
      then handoff_ok (set (collected (fst (snd (iteration q ob st)))))
             (set (collected st)) evs
      else if fst (iteration q ob st) = Raise \<or> Extract (extractEmailsFromPage (body_text ob))
                \<notin> set (snd (snd (iteration q ob st)))
      then handoff_ok (set (collected st)) snap evs
      else handoff_ok (set (collected (fst (snd (iteration q ob st)))))
             (set (collected st)) evs)"
  by (auto simp: iteration_def Let_def handoff_ok_Seen set_fold_set_add
      dest: rows_fresh rows_new)

lemma iteration_grows:
  "set (collected st) \<subseteq> set (collected (fst (snd (iteration q ob st))))"
  by (auto simp: iteration_def Let_def set_fold_set_add)

lemma handoff_ok_loop:
  "handoff_ok (set (collected st)) snap (snd (snd (loop q obs st)))"
proof (induction obs arbitrary: st snap)
  case Nil
  then show ?case by simp
next
  case (Cons ob obs)
  show ?case
  proof (cases "fst (iteration q ob st)")
    case Continue
    then show ?thesis
      using Cons.IH [of "fst (snd (iteration q ob st))" "set (collected st)"]
      by (simp add: loop_Cons handoff_ok_iteration del: loop.simps)
  next
    case Break
    then show ?thesis
      using handoff_ok_iteration [of st snap q ob "[]"]
      by (simp add: loop_Cons del: loop.simps)
  next
    case Raise
    then show ?thesis
      using handoff_ok_iteration [of st snap q ob "[]"]
      by (simp add: loop_Cons del: loop.simps)
  qed
qed

lemma loop_grows:
  "set (collected st) \<subseteq> set (collected (fst (snd (loop q obs st))))"
proof (induction obs arbitrary: st)
  case Nil
  then show ?case by simp
next
  case (Cons ob obs)
  show ?case
    using iteration_grows [of st q ob] Cons.IH [of "fst (snd (iteration q ob st))"]
    by (cases "fst (iteration q ob st)") (auto simp: loop_Cons simp del: loop.simps)
qed

text \<open>
  Claim C6. Along the trace of a session's loop, started from any set of seen records,
  every handoff to the two collaborators carries only identities that were outside the
  set when the pass extracted them and that are inside it when they are handed over
  (the \<open>Seen\<close> events come first); and the set after a pass, and after the loop, contains
  the set before.
\<close>

theorem handoff_only_unseen:
  "handoff_ok (set (collected st)) snap (snd (snd (loop q obs st)))
   \<and> set (collected st) \<subseteq> set (collected (fst (snd (iteration q ob st))))
   \<and> set (collected st) \<subseteq> set (collected (fst (snd (loop q obs st))))"
  by (simp add: handoff_ok_loop iteration_grows loop_grows)

theorem handoff_only_unseen_witness:
  "snd (snd (loop ''q'' [blocked_page, results_page]
               (init_session\<lparr>collected := [''zoe@site.org'']\<rparr>)))
     = [Detect \<lparr>present = True, solved = False\<rparr>, Extract [''bob@site.org''],
        Seen ''bob@site.org'',
        CsvAppend [\<lparr>email = ''bob@site.org'', query = ''q'', timestamp = ''T''\<rparr>],
        DbInsert [\<lparr>email = ''bob@site.org'', query = ''q'', timestamp = ''T''\<rparr>],
        NextPage True, Pause,
        Detect \<lparr>present = False, solved = False\<rparr>,
        Extract [''bob@site.org'', ''ann@site.org'', ''bob@site.org''],
        Seen ''ann@site.org'',
        CsvAppend [\<lparr>email = ''ann@site.org'', query = ''q'', timestamp = ''T''\<rparr>],
        DbInsert [\<lparr>email = ''ann@site.org'', query = ''q'', timestamp = ''T''\<rparr>],
        NextPage True, Pause]
   \<and> handoff_ok {''zoe@site.org''} {}
        (snd (snd (loop ''q'' [blocked_page, results_page]
                     (init_session\<lparr>collected := [''zoe@site.org'']\<rparr>))))
   \<and> collected (fst (snd (loop ''q'' [blocked_page, results_page]
                            (init_session\<lparr>collected := [''zoe@site.org'']\<rparr>))))
       = [''zoe@site.org'', ''bob@site.org'', ''ann@site.org'']"
  using handoff_only_unseen
    [where st = "init_session\<lparr>collected := [''zoe@site.org'']\<rparr>" and snap = "{}"
       and q = "''q''" and obs = "[blocked_page, results_page]" and ob = blocked_page]
  by (simp add: blocked_page_def results_page_def iteration_def init_session_def Let_def
      extract_blocked_page extract_results_page make_rows_def set_add_def)

section \<open>The browser context\<close>

lemma acquired_simps [simp]:
  "acquired [] = 0"
  "acquired (NewContext # evs) = Suc (acquired evs)"
  "acquired (NewPage # evs) = acquired evs"
  "acquired (Goto b # evs) = acquired evs"
  "acquired (Detect c # evs) = acquired evs"
  "acquired (RecoveryWait b # evs) = acquired evs"
  "acquired (Extract es # evs) = acquired evs"
  "acquired (Seen e # evs) = acquired evs"
  "acquired (CsvAppend rows # evs) = acquired evs"
  "acquired (DbInsert rows # evs) = acquired evs"
  "acquired (NextPage b # evs) = acquired evs"
  "acquired (Pause # evs) = acquired evs"
  "acquired (LogFailed # evs) = acquired evs"
  "acquired (CloseContext b # evs) = acquired evs"
  "acquired (Done n # evs) = acquired evs"
  "acquired (xs @ ys) = acquired xs + acquired ys"
  "acquired (map Seen es) = 0"
  by (simp_all add: acquired_def filter_map comp_def)

lemma released_simps [simp]:
  "released [] = 0"
  "released (NewContext # evs) = released evs"
  "released (NewPage # evs) = released evs"
  "released (Goto b # evs) = released evs"
  "released (Detect c # evs) = released evs"
  "released (RecoveryWait b # evs) = released evs"
  "released (Extract es # evs) = released evs"
  "released (Seen e # evs) = released evs"
  "released (CsvAppend rows # evs) = released evs"
  "released (DbInsert rows # evs) = released evs"
  "released (NextPage b # evs) = released evs"
  "released (Pause # evs) = released evs"
  "released (LogFailed # evs) = released evs"
  "released (CloseContext b # evs) = Suc (released evs)"
  "released (Done n # evs) = released evs"
  "released (xs @ ys) = released xs + released ys"
  "released (map Seen es) = 0"
  by (simp_all add: released_def filter_map comp_def)

lemma iteration_no_context:
  "acquired (snd (snd (iteration q ob st))) = 0 \<and> released (snd (snd (iteration q ob st))) = 0"
  by (simp add: iteration_def Let_def)

lemma loop_no_context:
  "acquired (snd (snd (loop q obs st))) = 0 \<and> released (snd (snd (loop q obs st))) = 0"
proof (induction obs arbitrary: st)
  case Nil
  then show ?case by simp
next
  case (Cons ob obs)
  show ?case
    using iteration_no_context [of q ob st] Cons.IH [of "fst (snd (iteration q ob st))"]
    by (cases "fst (iteration q ob st)") (auto simp: loop_Cons simp del: loop.simps)
qed

text \<open>
  Once the page is open, a session that has ended has acquired one context and released
  it once, whether its loop stopped or an error was caught; a session whose
  \<open>newContext\<close> throws has acquired none.
\<close>

lemma context_released_after_page:
  "context_ok l \<Longrightarrow> page_ok l \<Longrightarrow> fst (runQuery l q obs) \<noteq> Pending
   \<Longrightarrow> acquired (snd (runQuery l q obs)) = 1 \<and> released (snd (runQuery l q obs)) = 1"
  using loop_no_context [of q obs init_session]
  by (cases "loop q obs init_session" rule: prod_cases3)
     (auto simp: runQuery_def split: loop_end.splits)

lemma no_context_no_release:
  "\<not> context_ok l \<Longrightarrow> acquired (snd (runQuery l q obs)) = 0 \<and> released (snd (runQuery l q obs)) = 0"
  by (simp add: runQuery_def)

text \<open>
  Claim C9 fails on one exit path: \<open>context.newPage()\<close> stands before the \<open>try\<close>, so when
  it throws, the session ends (its promise rejected) holding a context that is never
  closed. One acquired, none released.
\<close>

theorem context_leaks_when_newPage_throws:
  "runQuery \<lparr>context_ok = True, page_ok = False, goto_ok = True, close_ok = True\<rparr>
            ''q'' [results_page]
     = (Rejected, [NewContext])
   \<and> acquired (snd (runQuery \<lparr>context_ok = True, page_ok = False, goto_ok = True,
                               close_ok = True\<rparr> ''q'' [results_page])) = 1
   \<and> released (snd (runQuery \<lparr>context_ok = True, page_ok = False, goto_ok = True,
                               close_ok = True\<rparr> ''q'' [results_page])) = 0"
  by (simp add: runQuery_def)

section \<open>The header of the output file at startup\<close>

lemma backup_differs: "backup_file stem now \<noteq> OUTPUT_FILE stem"
  by (simp add: backup_file_def OUTPUT_FILE_def)

lemma ensure_header_absent:
  "\<forall>c. \<not> throws c \<Longrightarrow> fs (OUTPUT_FILE stem) = None
   \<Longrightarrow> ensure_header throws stem now fs
       = Ready (fs(OUTPUT_FILE stem \<mapsto> CSV_HEADER @ [newline]))"
  by (simp add: ensure_header_def)

lemma ensure_header_same:
  "\<forall>c. \<not> throws c \<Longrightarrow> fs (OUTPUT_FILE stem) = Some content
   \<Longrightarrow> trim (first_line content) = CSV_HEADER
   \<Longrightarrow> ensure_header throws stem now fs = Ready fs"
  by (simp add: ensure_header_def)

lemma ensure_header_other:
  "\<forall>c. \<not> throws c \<Longrightarrow> fs (OUTPUT_FILE stem) = Some content
   \<Longrightarrow> trim (first_line content) \<noteq> CSV_HEADER
   \<Longrightarrow> ensure_header throws stem now fs
       = Ready ((fs(backup_file stem now \<mapsto> content))
                  (OUTPUT_FILE stem \<mapsto> CSV_HEADER @ [newline]))"
  by (simp add: ensure_header_def)

lemma backup_name_example: "backup_file ''/app/output'' 1703 = ''/app/output.backup-1703.csv''"
  by code_simp

text \<open>
  Claim C10, as the claim has it, fails for a first line that is the header with white
  space around it: it is not exactly the header, yet the comparison is made on the
  trimmed line, and the file stays as it is, with no backup.
\<close>

theorem padded_header_is_kept:
  "first_line ('' email,query,timestamp'' @ [newline] @ ''a@b.io,q,t'' @ [newline])
     = '' email,query,timestamp''
   \<and> '' email,query,timestamp'' \<noteq> CSV_HEADER
   \<and> ensure_header no_faults ''/app/output'' 1703
        [''/app/output.csv'' \<mapsto> '' email,query,timestamp'' @ [newline] @ ''a@b.io,q,t'' @ [newline]]
      = Ready [''/app/output.csv''
                 \<mapsto> '' email,query,timestamp'' @ [newline] @ ''a@b.io,q,t'' @ [newline]]"
  by (simp add: ensure_header_def OUTPUT_FILE_def CSV_HEADER_def trim_def is_space_def code_def
      no_faults_def)

text \<open>
  Claim C10, amended. When no file operation fails: if the output file does not exist it
  is created holding only the header line; if it exists and its first line, trimmed of
  surrounding white space, is not the header, its whole contents are copied to the
  backup file named after the time and the output file is overwritten with the header
  line alone, every other file unchanged; if the trimmed first line is the header,
  nothing changes.
\<close>

theorem header_initialised:
  assumes "\<forall>c. \<not> throws c"
  shows "(fs (OUTPUT_FILE stem) = None \<longrightarrow>
            ensure_header throws stem now fs
              = Ready (fs(OUTPUT_FILE stem \<mapsto> CSV_HEADER @ [newline])))
       \<and> (\<forall>content. fs (OUTPUT_FILE stem) = Some content
              \<and> trim (first_line content) \<noteq> CSV_HEADER \<longrightarrow>
            (\<exists>fs'. ensure_header throws stem now fs = Ready fs'
                  \<and> fs' (backup_file stem now) = Some content
                  \<and> fs' (OUTPUT_FILE stem) = Some (CSV_HEADER @ [newline])
                  \<and> (\<forall>p. p \<noteq> backup_file stem now \<and> p \<noteq> OUTPUT_FILE stem
                          \<longrightarrow> fs' p = fs p)))
       \<and> (\<forall>content. fs (OUTPUT_FILE stem) = Some content
              \<and> trim (first_line content) = CSV_HEADER \<longrightarrow>
            ensure_header throws stem now fs = Ready fs)"
  using assms backup_differs [of stem now]
  by (auto simp: ensure_header_absent ensure_header_same ensure_header_other)

theorem header_initialised_witness:
  "trim (first_line (''email,phone'' @ [newline] @ ''a@b.io,1'' @ [newline])) = ''email,phone''
   \<and> (\<exists>fs'. ensure_header no_faults ''/app/output'' 1703
               [''/app/output.csv'' \<mapsto> ''email,phone'' @ [newline] @ ''a@b.io,1'' @ [newline]]
             = Ready fs'
           \<and> fs' ''/app/output.backup-1703.csv''
               = Some (''email,phone'' @ [newline] @ ''a@b.io,1'' @ [newline])
           \<and> fs' ''/app/output.csv'' = Some (''email,query,timestamp'' @ [newline]))
   \<and> ensure_header no_faults ''/app/output'' 1703 Map.empty
       = Ready [''/app/output.csv'' \<mapsto> ''email,query,timestamp'' @ [newline]]
   \<and> ensure_header no_faults ''/app/output'' 1703
        [''/app/output.csv'' \<mapsto> ''email,query,timestamp '' @ [creturn, newline] @ ''a@b.io,q,t'']
       = Ready [''/app/output.csv''
                  \<mapsto> ''email,query,timestamp '' @ [creturn, newline] @ ''a@b.io,q,t'']"
proof -
  let ?old = "''email,phone'' @ [newline] @ ''a@b.io,1'' @ [newline]"
  let ?ok = "''email,query,timestamp '' @ [creturn, newline] @ ''a@b.io,q,t''"
  have t1: "trim (first_line ?old) = ''email,phone''"
    by (simp add: trim_def is_space_def code_def)
  have t2: "trim (first_line ?ok) = CSV_HEADER"
    by (simp add: trim_def is_space_def code_def CSV_HEADER_def)
  have n: "\<forall>c. \<not> no_faults c" by (simp add: no_faults_def)
  note h1 = header_initialised [OF n, of "[''/app/output.csv'' \<mapsto> ?old]" "''/app/output''" 1703]
  note h2 = header_initialised [OF n, of Map.empty "''/app/output''" 1703]
  note h3 = header_initialised [OF n, of "[''/app/output.csv'' \<mapsto> ?ok]" "''/app/output''" 1703]
  have a: "\<exists>fs'. ensure_header no_faults ''/app/output'' 1703 [''/app/output.csv'' \<mapsto> ?old]
             = Ready fs'
           \<and> fs' ''/app/output.backup-1703.csv'' = Some ?old
           \<and> fs' ''/app/output.csv'' = Some (''email,query,timestamp'' @ [newline])"
    using h1 t1 by (simp add: OUTPUT_FILE_def backup_name_example CSV_HEADER_def) blast
  have b: "ensure_header no_faults ''/app/output'' 1703 Map.empty
       = Ready [''/app/output.csv'' \<mapsto> ''email,query,timestamp'' @ [newline]]"
    using h2 by (simp add: OUTPUT_FILE_def CSV_HEADER_def)
  have c: "ensure_header no_faults ''/app/output'' 1703 [''/app/output.csv'' \<mapsto> ?ok]
       = Ready [''/app/output.csv'' \<mapsto> ?ok]"
    using h3 t2 by (simp add: OUTPUT_FILE_def)
  show ?thesis using a b c t1 by simp
qed

section \<open>The token solver: order of types, first token, back-off, exhaustion\<close>

lemma candidate_types_none: "candidate_types None = FALLBACK_TYPES"
  by (simp add: candidate_types_def FALLBACK_TYPES_def)

lemma candidate_types_hint:
  "h \<noteq> [] \<Longrightarrow> candidate_types (Some h) = h # filter (\<lambda>t. t \<noteq> h) FALLBACK_TYPES"
  by (simp add: candidate_types_def FALLBACK_TYPES_def)

lemma candidate_types_distinct: "distinct (candidate_types hint)"
proof (cases hint)
  case None
  then show ?thesis by (simp add: candidate_types_none FALLBACK_TYPES_def)
next
  case (Some h)
  show ?thesis
  proof (cases "h = []")
    case True
    then show ?thesis using Some by (simp add: candidate_types_def FALLBACK_TYPES_def)
  next
    case False
    then show ?thesis using Some by (simp add: candidate_types_hint FALLBACK_TYPES_def)
  qed
qed

lemma posted_append: "posted (xs @ ys) = posted xs @ posted ys"
  by (induction xs rule: posted.induct) simp_all

lemma posted_poll_ticket: "posted (snd (poll_ticket svc parse t ident n i)) = []"
  by (induction n arbitrary: i)
     (auto simp: Let_def posted_append case_prod_unfold split: attempt.splits)

lemma posted_try_type: "posted (snd (try_type svc parse t)) = [t]"
  using posted_poll_ticket [of svc parse t _ 20 0]
  by (auto simp: try_type_def Let_def case_prod_unfold split: attempt.splits option.splits)

lemma solve_types_token:
  "fst (try_type svc parse t) = Some tok
   \<Longrightarrow> solve_types svc parse (t # ts) = try_type svc parse t"
  by (cases "try_type svc parse t") simp

lemma solve_types_next:
  "fst (try_type svc parse t) = None
   \<Longrightarrow> solve_types svc parse (t # ts)
       = (fst (solve_types svc parse ts),
          snd (try_type svc parse t) @ snd (solve_types svc parse ts))"
  by (cases "try_type svc parse t"; cases "solve_types svc parse ts") simp

lemma solve_types_exhausted:
  "\<forall>t \<in> set ts. fst (try_type svc parse t) = None
   \<Longrightarrow> fst (solve_types svc parse ts) = None \<and> posted (snd (solve_types svc parse ts)) = ts"
  by (induction ts) (simp_all add: solve_types_next posted_append posted_try_type del: solve_types.simps(2))

lemma try_type_token:
  "post svc t = Returns res \<Longrightarrow> ok res \<Longrightarrow> j_token (parse_or_empty parse (body res)) = Some tok
   \<Longrightarrow> tok \<noteq> [] \<Longrightarrow> try_type svc parse t = (Some tok, [Post t (t = ''recaptcha3'')])"
  by (simp add: try_type_def Let_def truthy_def)

lemma try_type_invalid:
  "post svc t = Returns res \<Longrightarrow> 400 \<le> status res \<Longrightarrow> status res < 500 \<Longrightarrow> status res \<noteq> 429
   \<Longrightarrow> try_type svc parse t = (None, [Post t (t = ''recaptcha3'')])"
  by (simp add: try_type_def Let_def ok_def)

lemma try_type_limited:
  "post svc t = Returns res \<Longrightarrow> status res = 429
   \<Longrightarrow> try_type svc parse t = (None, [Post t (t = ''recaptcha3''), Wait 1000])"
  by (simp add: try_type_def Let_def ok_def)

lemma truthy_Some: "truthy v \<Longrightarrow> \<exists>x. v = Some x \<and> x \<noteq> []"
  by (cases v) (simp_all add: truthy_def)

lemma poll_value_truthy: "poll_value d = Some tok \<Longrightarrow> tok \<noteq> []"
  by (auto simp: poll_value_def truthy_def split: if_splits)

lemma poll_ticket_value:
  assumes "reply_value parse (poll svc t i) = Some tok"
  shows "poll_ticket svc parse t ident (Suc n) i = (Some tok, [Wait 1500, Poll ident])"
proof (cases "poll svc t i")
  case Throws
  then show ?thesis using assms by (simp add: reply_value_def)
next
  case (Returns res)
  then have o: "ok res" and v: "poll_value (parse_or_empty parse (body res)) = Some tok"
    using assms by (simp_all add: reply_value_def split: if_splits)
  show ?thesis
    using Returns o v by (simp add: poll_value_def Let_def truthy_def split: if_splits)
qed

lemma poll_ticket_skip:
  assumes "reply_value parse (poll svc t i) = None"
  shows "poll_ticket svc parse t ident (Suc n) i
       = (fst (poll_ticket svc parse t ident n (Suc i)),
          Wait 1500 # Poll ident # backoff (poll svc t i)
            @ snd (poll_ticket svc parse t ident n (Suc i)))"
proof (cases "poll svc t i")
  case Throws
  then show ?thesis by (simp add: backoff_def case_prod_unfold)
next
  case (Returns res)
  show ?thesis
  proof (cases "ok res")
    case True
    then have v: "poll_value (parse_or_empty parse (body res)) = None"
      using assms Returns by (simp add: reply_value_def)
    have n: "status res \<noteq> 429" using True by (simp add: ok_def)
    show ?thesis
      using Returns True v n
      by (simp add: poll_value_def Let_def truthy_def backoff_def case_prod_unfold
          split: if_splits)
  next
    case False
    then show ?thesis using Returns by (simp add: backoff_def case_prod_unfold)
  qed
qed

lemma poll_ticket_sound:
  "fst (poll_ticket svc parse t ident n i) = Some tok
   \<Longrightarrow> \<exists>k<n. reply_value parse (poll svc t (i + k)) = Some tok"
proof (induction n arbitrary: i)
  case 0
  then show ?case by simp
next
  case (Suc n)
  show ?case
  proof (cases "reply_value parse (poll svc t i)")
    case None
    then have "fst (poll_ticket svc parse t ident n (Suc i)) = Some tok"
      using Suc.prems by (simp add: poll_ticket_skip del: poll_ticket.simps)
    then obtain k where "k < n" "reply_value parse (poll svc t (Suc i + k)) = Some tok"
      using Suc.IH by blast
    then have "Suc k < Suc n \<and> reply_value parse (poll svc t (i + Suc k)) = Some tok" by simp
    then show ?thesis by blast
  next
    case (Some v)
    then have "v = tok" using Suc.prems by (simp add: poll_ticket_value del: poll_ticket.simps)
    then have "0 < Suc n \<and> reply_value parse (poll svc t (i + 0)) = Some tok" using Some by simp
    then show ?thesis by blast
  qed
qed

lemma try_type_first:
  assumes "reply_token parse (post svc t) = Some tok"
  shows "try_type svc parse t = (Some tok, [Post t (t = ''recaptcha3'')])"
proof (cases "post svc t")
  case Throws
  then show ?thesis using assms by (simp add: reply_token_def)
next
  case (Returns res)
  then have "ok res" "truthy (j_token (parse_or_empty parse (body res)))"
    "j_token (parse_or_empty parse (body res)) = Some tok"
    using assms by (simp_all add: reply_token_def split: if_splits)
  then show ?thesis using Returns by (simp add: try_type_def Let_def)
qed

lemma try_type_ticket:
  assumes "reply_token parse (post svc t) = None"
    and "reply_ticket parse (post svc t) = Some ident"
  shows "try_type svc parse t
           = (fst (poll_ticket svc parse t ident 20 0),
              Post t (t = ''recaptcha3'') # snd (poll_ticket svc parse t ident 20 0))"
proof (cases "post svc t")
  case Throws
  then show ?thesis using assms by (simp add: reply_ticket_def)
next
  case (Returns res)
  let ?d = "parse_or_empty parse (body res)"
  have o: "ok res" using assms(2) Returns by (simp add: reply_ticket_def split: if_splits)
  have nt: "\<not> truthy (j_token ?d)"
    using assms(1) Returns o by (auto simp: reply_token_def truthy_def split: if_splits)
  have tk: "truthy (or_else (j_id ?d) (or_else (j_data ?d) (j_task ?d)))"
    and id: "or_else (j_id ?d) (or_else (j_data ?d) (j_task ?d)) = Some ident"
    using assms(2) Returns o by (simp_all add: reply_ticket_def Let_def split: if_splits)
  have ne: "ident \<noteq> []" using tk id by (simp add: truthy_def)
  show ?thesis
    using Returns o nt id ne by (simp add: try_type_def Let_def case_prod_unfold)
qed

lemma try_type_nothing:
  assumes "reply_token parse (post svc t) = None"
    and "reply_ticket parse (post svc t) = None"
  shows "try_type svc parse t = (None, Post t (t = ''recaptcha3'') # backoff (post svc t))"
proof (cases "post svc t")
  case Throws
  then show ?thesis by (simp add: try_type_def backoff_def)
next
  case (Returns res)
  let ?d = "parse_or_empty parse (body res)"
  show ?thesis
  proof (cases "ok res")
    case True
    have nt: "\<not> truthy (j_token ?d)"
      using assms(1) Returns True by (auto simp: reply_token_def truthy_def split: if_splits)
    have ni: "\<not> truthy (or_else (j_id ?d) (or_else (j_data ?d) (j_task ?d)))"
      using assms(2) Returns True
      by (auto simp: reply_ticket_def Let_def truthy_def split: if_splits)
    have n: "status res \<noteq> 429" using True by (simp add: ok_def)
    show ?thesis
      using Returns True nt ni n
      by (auto simp: try_type_def Let_def backoff_def truthy_def split: option.splits)
  next
    case False
    then show ?thesis using Returns by (simp add: try_type_def Let_def backoff_def)
  qed
qed

lemma reply_token_truthy: "reply_token parse r = Some tok \<Longrightarrow> tok \<noteq> []"
  by (auto simp: reply_token_def truthy_def split: attempt.splits if_splits)

lemma reply_value_truthy: "reply_value parse r = Some tok \<Longrightarrow> tok \<noteq> []"
  by (auto simp: reply_value_def split: attempt.splits if_splits dest: poll_value_truthy)

lemma try_type_sound:
  assumes "fst (try_type svc parse t) = Some tok"
  shows "carried svc parse t tok"
proof (cases "reply_token parse (post svc t)")
  case (Some v)
  then show ?thesis using assms by (simp add: try_type_first carried_def)
next
  case None
  show ?thesis
  proof (cases "reply_ticket parse (post svc t)")
    case (Some ident)
    then have "fst (poll_ticket svc parse t ident 20 0) = Some tok"
      using assms None by (simp add: try_type_ticket)
    then obtain k where "k < 20" "reply_value parse (poll svc t (0 + k)) = Some tok"
      using poll_ticket_sound by blast
    then show ?thesis by (auto simp: carried_def)
  next
    case None': None
    then show ?thesis using assms None by (simp add: try_type_nothing)
  qed
qed

lemma solve_types_sound:
  "fst (solve_types svc parse ts) = Some tok \<Longrightarrow> \<exists>t \<in> set ts. fst (try_type svc parse t) = Some tok"
proof (induction ts)
  case Nil
  then show ?case by simp
next
  case (Cons t ts)
  show ?case
  proof (cases "fst (try_type svc parse t)")
    case None
    then have "fst (solve_types svc parse ts) = Some tok"
      using Cons.prems by (simp add: solve_types_next del: solve_types.simps)
    then show ?thesis using Cons.IH by auto
  next
    case (Some v)
    then have "solve_types svc parse (t # ts) = try_type svc parse t"
      by (rule solve_types_token)
    then show ?thesis using Cons.prems by auto
  qed
qed


lemma try_type_other_status:
  "post svc t = Returns res \<Longrightarrow> \<not> ok res \<Longrightarrow> status res \<noteq> 429
   \<Longrightarrow> try_type svc parse t = (None, [Post t (t = ''recaptcha3'')])"
  by (simp add: try_type_def Let_def)

lemma picky_run:
  "solveRecaptchaToken ''key'' picky_service toy_parse None
     = (Some ''tok'', [Post ''recaptcha3'' True, Post ''recaptcha'' False, Wait 1000,
                       Post ''recaptcha_enterprise'' False])"
  by (simp add: solveRecaptchaToken_def candidate_types_def FALLBACK_TYPES_def try_type_def
      picky_service_def toy_parse_def parse_or_empty_def empty_json_def truthy_def ok_def
      invalid_type_def Let_def)

lemma ticket_run:
  "solveRecaptchaToken ''key'' ticket_service toy_parse None
     = (Some ''sol'',
        [Post ''recaptcha3'' True, Wait 1500, Poll ''job7'', Wait 1500, Poll ''job7'',
         Wait 1000, Wait 1500, Poll ''job7'', Wait 1500, Poll ''job7''])"
  by code_simp

lemma invalid_type_example: "invalid_type ''Invalid type''"
  by code_simp

text \<open>
  Claim C7, as the claim has it, fails for a 429 reply whose body says the type is
  invalid: it is a 4xx reply indicating an invalid type, and the solver waits 1000 ms
  before the next type, where the claim has it advance without waiting.
\<close>

theorem rate_limited_invalid_type_waits:
  "post limited_service ''recaptcha3'' = Returns \<lparr>status = 429, body = ''Invalid type''\<rparr>
   \<and> invalid_type ''Invalid type''
   \<and> solveRecaptchaToken ''key'' limited_service toy_parse None
       = (None, [Post ''recaptcha3'' True, Wait 1000, Post ''recaptcha'' False, Wait 1000,
                 Post ''recaptcha_enterprise'' False, Wait 1000])"
  by (simp add: invalid_type_example solveRecaptchaToken_def candidate_types_def
      FALLBACK_TYPES_def try_type_def limited_service_def ok_def Let_def)

text \<open>
  Claim C7, amended. The candidate types are the hint, when there is one, followed by
  the fallback sequence without the hint, no type twice. For one type: a reply to the
  \<open>POST\<close> that carries a token ends the search with that token; one that carries a ticket
  is polled, up to 20 rounds 1500 ms apart, and the first poll reply that carries a
  token, a solution or a data string ends the search with it, a round without one (a
  throw, a reply that is not 2xx, nothing in the body) being followed by the next; a
  reply with neither token nor ticket yields nothing. A type that yields a token ends
  the loop, no further type being posted; one that yields nothing is followed by the
  next type: at once after a reply that is not 2xx and not 429 (a 400 saying the type is
  invalid among them), after a wait of 1000 ms after a 429 reply, whatever its body.
  Every token returned was carried by a reply to a request for a candidate type; and
  when no type yields a token, every candidate has been posted once, in order, and the
  result is \<open>None\<close> (the function's \<open>null\<close>), not an exception.
\<close>

theorem solver_protocol:
  "candidate_types None = FALLBACK_TYPES
   \<and> (h \<noteq> [] \<longrightarrow> candidate_types (Some h) = h # filter (\<lambda>t. t \<noteq> h) FALLBACK_TYPES)
   \<and> distinct (candidate_types hint)
   \<and> (reply_token parse (post svc t) = Some tok \<longrightarrow>
        try_type svc parse t = (Some tok, [Post t (t = ''recaptcha3'')]))
   \<and> (reply_token parse (post svc t) = None \<and> reply_ticket parse (post svc t) = Some ident \<longrightarrow>
        try_type svc parse t
          = (fst (poll_ticket svc parse t ident 20 0),
             Post t (t = ''recaptcha3'') # snd (poll_ticket svc parse t ident 20 0)))
   \<and> (reply_token parse (post svc t) = None \<and> reply_ticket parse (post svc t) = None \<longrightarrow>
        try_type svc parse t = (None, Post t (t = ''recaptcha3'') # backoff (post svc t)))
   \<and> poll_ticket svc parse t ident 0 i = (None, [])
   \<and> (reply_value parse (poll svc t i) = Some tok \<longrightarrow>
        poll_ticket svc parse t ident (Suc n) i = (Some tok, [Wait 1500, Poll ident]))
   \<and> (reply_value parse (poll svc t i) = None \<longrightarrow>
        poll_ticket svc parse t ident (Suc n) i
          = (fst (poll_ticket svc parse t ident n (Suc i)),
             Wait 1500 # Poll ident # backoff (poll svc t i)
               @ snd (poll_ticket svc parse t ident n (Suc i))))
   \<and> (fst (try_type svc parse t) = Some tok \<longrightarrow>
        solve_types svc parse (t # ts) = try_type svc parse t
        \<and> posted (snd (solve_types svc parse (t # ts))) = [t])
   \<and> (fst (try_type svc parse t) = None \<longrightarrow>
        solve_types svc parse (t # ts)
          = (fst (solve_types svc parse ts),
             snd (try_type svc parse t) @ snd (solve_types svc parse ts)))
   \<and> (post svc t = Returns res \<and> \<not> ok res \<and> status res \<noteq> 429 \<longrightarrow>
        try_type svc parse t = (None, [Post t (t = ''recaptcha3'')]))
   \<and> (post svc t = Returns res \<and> status res = 429 \<longrightarrow>
        try_type svc parse t = (None, [Post t (t = ''recaptcha3''), Wait 1000]))
   \<and> (fst (solveRecaptchaToken key svc parse hint) = Some tok \<longrightarrow>
        tok \<noteq> [] \<and> (\<exists>t \<in> set (candidate_types hint). carried svc parse t tok))
   \<and> (key \<noteq> [] \<and> (\<forall>t \<in> set (candidate_types hint). fst (try_type svc parse t) = None) \<longrightarrow>
        fst (solveRecaptchaToken key svc parse hint) = None
        \<and> posted (snd (solveRecaptchaToken key svc parse hint)) = candidate_types hint)"
proof (intro conjI impI)
  show "candidate_types None = FALLBACK_TYPES" by (rule candidate_types_none)
next
  assume "h \<noteq> []"
  then show "candidate_types (Some h) = h # filter (\<lambda>t. t \<noteq> h) FALLBACK_TYPES"
    by (rule candidate_types_hint)
next
  show "distinct (candidate_types hint)" by (rule candidate_types_distinct)
next
  assume "reply_token parse (post svc t) = Some tok"
  then show "try_type svc parse t = (Some tok, [Post t (t = ''recaptcha3'')])"
    by (rule try_type_first)
next
  assume "reply_token parse (post svc t) = None \<and> reply_ticket parse (post svc t) = Some ident"
  then show "try_type svc parse t
          = (fst (poll_ticket svc parse t ident 20 0),
             Post t (t = ''recaptcha3'') # snd (poll_ticket svc parse t ident 20 0))"
    using try_type_ticket [of parse svc t ident] by blast
next
  assume "reply_token parse (post svc t) = None \<and> reply_ticket parse (post svc t) = None"
  then show "try_type svc parse t = (None, Post t (t = ''recaptcha3'') # backoff (post svc t))"
    using try_type_nothing [of parse svc t] by blast
next
  show "poll_ticket svc parse t ident 0 i = (None, [])" by simp
next
  assume "reply_value parse (poll svc t i) = Some tok"
  then show "poll_ticket svc parse t ident (Suc n) i = (Some tok, [Wait 1500, Poll ident])"
    by (rule poll_ticket_value)
next
  assume "reply_value parse (poll svc t i) = None"
  then show "poll_ticket svc parse t ident (Suc n) i
          = (fst (poll_ticket svc parse t ident n (Suc i)),
             Wait 1500 # Poll ident # backoff (poll svc t i)
               @ snd (poll_ticket svc parse t ident n (Suc i)))"
    by (rule poll_ticket_skip)
next
  assume a: "fst (try_type svc parse t) = Some tok"
  then show e: "solve_types svc parse (t # ts) = try_type svc parse t"
    by (rule solve_types_token)
  show "posted (snd (solve_types svc parse (t # ts))) = [t]"
    unfolding e by (rule posted_try_type)
next
  assume "fst (try_type svc parse t) = None"
  then show "solve_types svc parse (t # ts)
          = (fst (solve_types svc parse ts),
             snd (try_type svc parse t) @ snd (solve_types svc parse ts))"
    by (rule solve_types_next)
next
  assume "post svc t = Returns res \<and> \<not> ok res \<and> status res \<noteq> 429"
  then show "try_type svc parse t = (None, [Post t (t = ''recaptcha3'')])"
    using try_type_other_status [of svc t res parse] by blast
next
  assume "post svc t = Returns res \<and> status res = 429"
  then show "try_type svc parse t = (None, [Post t (t = ''recaptcha3''), Wait 1000])"
    using try_type_limited [of svc t res parse] by blast
next
  assume a: "fst (solveRecaptchaToken key svc parse hint) = Some tok"
  then have "fst (solve_types svc parse (candidate_types hint)) = Some tok"
    by (simp add: solveRecaptchaToken_def split: if_splits)
  then obtain t where t: "t \<in> set (candidate_types hint)"
    and f: "fst (try_type svc parse t) = Some tok"
    using solve_types_sound by blast
  have c: "carried svc parse t tok" using f by (rule try_type_sound)
  then show "tok \<noteq> []"
    unfolding carried_def using reply_token_truthy reply_value_truthy by blast
  show "\<exists>t \<in> set (candidate_types hint). carried svc parse t tok"
    using t c by blast
next
  assume a: "key \<noteq> [] \<and> (\<forall>t \<in> set (candidate_types hint). fst (try_type svc parse t) = None)"
  then have "fst (solve_types svc parse (candidate_types hint)) = None
      \<and> posted (snd (solve_types svc parse (candidate_types hint))) = candidate_types hint"
    by (intro solve_types_exhausted) simp
  then show "fst (solveRecaptchaToken key svc parse hint) = None"
    and "posted (snd (solveRecaptchaToken key svc parse hint)) = candidate_types hint"
    using a by (simp_all add: solveRecaptchaToken_def)
qed

theorem solver_protocol_witness:
  "candidate_types (Some ''recaptcha'') = [''recaptcha'', ''recaptcha3'', ''recaptcha_enterprise'']
   \<and> reply_token toy_parse (post picky_service ''recaptcha_enterprise'') = Some ''tok''
   \<and> try_type picky_service toy_parse ''recaptcha_enterprise''
       = (Some ''tok'', [Post ''recaptcha_enterprise'' False])
   \<and> solve_types picky_service toy_parse [''recaptcha_enterprise'', ''zzz'']
       = (Some ''tok'', [Post ''recaptcha_enterprise'' False])
   \<and> solveRecaptchaToken ''key'' picky_service toy_parse None
       = (Some ''tok'', [Post ''recaptcha3'' True, Post ''recaptcha'' False, Wait 1000,
                         Post ''recaptcha_enterprise'' False])
   \<and> reply_ticket toy_parse (post ticket_service ''recaptcha3'') = Some ''job7''
   \<and> solveRecaptchaToken ''key'' ticket_service toy_parse None
       = (Some ''sol'',
          [Post ''recaptcha3'' True, Wait 1500, Poll ''job7'', Wait 1500, Poll ''job7'',
           Wait 1000, Wait 1500, Poll ''job7'', Wait 1500, Poll ''job7''])
   \<and> carried ticket_service toy_parse ''recaptcha3'' ''sol''
   \<and> fst (solveRecaptchaToken ''key'' dead_service toy_parse (Some ''recaptcha'')) = None
   \<and> posted (snd (solveRecaptchaToken ''key'' dead_service toy_parse (Some ''recaptcha'')))
       = [''recaptcha'', ''recaptcha3'', ''recaptcha_enterprise'']"
proof -
  have c: "candidate_types (Some ''recaptcha'')
             = [''recaptcha'', ''recaptcha3'', ''recaptcha_enterprise'']"
    using solver_protocol [where h = "''recaptcha''"] by (simp add: FALLBACK_TYPES_def)
  have r: "reply_token toy_parse (post picky_service ''recaptcha_enterprise'') = Some ''tok''"
    by (simp add: reply_token_def picky_service_def toy_parse_def parse_or_empty_def
        empty_json_def truthy_def ok_def)
  have y: "try_type picky_service toy_parse ''recaptcha_enterprise''
       = (Some ''tok'', [Post ''recaptcha_enterprise'' False])"
    using solver_protocol
      [where svc = picky_service and t = "''recaptcha_enterprise''" and parse = toy_parse
         and tok = "''tok''"] r by simp
  have s: "solve_types picky_service toy_parse [''recaptcha_enterprise'', ''zzz'']
       = (Some ''tok'', [Post ''recaptcha_enterprise'' False])"
    using solver_protocol
      [where svc = picky_service and t = "''recaptcha_enterprise''" and parse = toy_parse
         and tok = "''tok''" and ts = "[''zzz'']"] y by simp
  have k: "reply_ticket toy_parse (post ticket_service ''recaptcha3'') = Some ''job7''"
    by (simp add: reply_ticket_def ticket_service_def toy_parse_def parse_or_empty_def
        empty_json_def truthy_def or_else_def ok_def)
  have "fst (solveRecaptchaToken ''key'' ticket_service toy_parse None) = Some ''sol''"
    using ticket_run by simp
  then have "\<exists>t \<in> set (candidate_types None). carried ticket_service toy_parse t ''sol''"
    using solver_protocol
      [where key = "''key''" and svc = ticket_service and parse = toy_parse and hint = None
         and tok = "''sol''" and h = "''x''" and t = "''recaptcha3''" and ident = "''job7''"
         and i = 0 and n = 0 and ts = "[]" and res = "\<lparr>status = 200, body = ''K''\<rparr>"]
    by blast
  moreover have "\<not> carried ticket_service toy_parse ''recaptcha'' ''sol''"
    "\<not> carried ticket_service toy_parse ''recaptcha_enterprise'' ''sol''"
    by (simp_all add: carried_def ticket_service_def reply_token_def reply_value_def
        toy_parse_def parse_or_empty_def empty_json_def poll_value_def truthy_def ok_def)
  ultimately have ca: "carried ticket_service toy_parse ''recaptcha3'' ''sol''"
    by (auto simp: candidate_types_none FALLBACK_TYPES_def)
  have t: "\<forall>t \<in> set (candidate_types (Some ''recaptcha'')).
             fst (try_type dead_service toy_parse t) = None"
    by (simp add: try_type_def dead_service_def)
  have d: "fst (solveRecaptchaToken ''key'' dead_service toy_parse (Some ''recaptcha'')) = None
     \<and> posted (snd (solveRecaptchaToken ''key'' dead_service toy_parse (Some ''recaptcha'')))
         = candidate_types (Some ''recaptcha'')"
    using solver_protocol
      [where key = "''key''" and svc = dead_service and parse = toy_parse
         and hint = "Some ''recaptcha''"] t by simp
  show ?thesis
    using c r y s k ca d picky_run ticket_run by simp
qed

section \<open>The extractor on separated addresses\<close>

lemmas char_defs = letter_char_def local_char_def domain_char_def is_lower_def is_upper_def
  is_digit_def code_def

lemma letter_domain: "letter_char c \<Longrightarrow> domain_char c"
  by (auto simp: letter_char_def domain_char_def)

lemma domain_local: "domain_char c \<Longrightarrow> local_char c"
  by (auto simp: local_char_def domain_char_def)

lemma dot_domain: "domain_char (CHR ''.'')"
  by (simp add: domain_char_def)

lemma at_not_local: "\<not> local_char (CHR ''@'')"
  by (simp add: char_defs)

lemma letter_not_dot: "letter_char c \<Longrightarrow> c \<noteq> CHR ''.''"
  by (auto simp: char_defs)

lemma backtrack_hit:
  "lo \<le> j \<Longrightarrow> j \<le> k \<Longrightarrow> (\<forall>i. j < i \<and> i \<le> k \<longrightarrow> cont (drop i s) = None)
   \<Longrightarrow> cont (drop j s) = Some m
   \<Longrightarrow> backtrack cont lo k s = Some (take j s @ m)"
proof (induction k)
  case 0
  then show ?case by simp
next
  case (Suc k)
  show ?case
  proof (cases "j = Suc k")
    case True
    then show ?thesis using Suc.prems by simp
  next
    case False
    then have jk: "j \<le> k" using Suc.prems by simp
    have none: "cont (drop (Suc k) s) = None" using Suc.prems jk by simp
    have "backtrack cont lo k s = Some (take j s @ m)"
      using Suc.IH Suc.prems jk by simp
    then show ?thesis using none jk Suc.prems by simp
  qed
qed

lemma backtrack_miss:
  "0 < lo \<Longrightarrow> (\<forall>i. lo \<le> i \<and> i \<le> k \<longrightarrow> cont (drop i s) = None)
   \<Longrightarrow> backtrack cont lo k s = None"
  by (induction k) simp_all

lemma takeWhile_prefix_stop:
  "list_all p xs \<Longrightarrow> rest = [] \<or> \<not> p (hd rest) \<Longrightarrow> takeWhile p (xs @ rest) = xs"
  by (cases rest) (auto simp: list_all_iff takeWhile_append2)

lemma rmatch_tld:
  assumes "list_all letter_char t" "2 \<le> length t" "rest = [] \<or> \<not> letter_char (hd rest)"
  shows "rmatch [Cls letter_char 2] (t @ rest) = Some t"
proof -
  have tw: "takeWhile letter_char (t @ rest) = t"
    using assms by (simp add: takeWhile_prefix_stop)
  have "backtrack (rmatch []) 2 (length t) (t @ rest) = Some (take (length t) (t @ rest) @ [])"
    using assms by (intro backtrack_hit) simp_all
  then show ?thesis by (simp add: tw)
qed

lemma short_letter_run:
  "\<not> dot_tld (CHR ''.'' # s) \<Longrightarrow> length (takeWhile letter_char s) < 2"
proof (cases s)
  case Nil
  then show ?thesis by simp
next
  case (Cons x s')
  assume n: "\<not> dot_tld (CHR ''.'' # s)"
  show ?thesis
  proof (cases s')
    case Nil
    then show ?thesis using Cons by simp
  next
    case (Cons y s'')
    then show ?thesis using n \<open>s = x # s'\<close> by auto
  qed
qed

lemma rmatch_dot_tld_none:
  assumes "\<not> dot_tld s"
  shows "rmatch [Lit (CHR ''.''), Cls letter_char 2] s = None"
proof (cases s)
  case Nil
  then show ?thesis by simp
next
  case (Cons c s')
  show ?thesis
  proof (cases "c = CHR ''.''")
    case True
    then have "length (takeWhile letter_char s') < 2"
      using assms Cons short_letter_run by simp
    then have "backtrack (rmatch []) 2 (length (takeWhile letter_char s')) s' = None"
      by (intro backtrack_miss) simp_all
    then show ?thesis using Cons True by simp
  next
    case False
    then show ?thesis using Cons by simp
  qed
qed

lemma letter_start_no_dot_tld: "s \<noteq> [] \<Longrightarrow> letter_char (hd s) \<Longrightarrow> \<not> dot_tld s"
  using letter_not_dot by (cases s rule: dot_tld.cases) auto

lemma clear_run_drop:
  "clear_run rest \<Longrightarrow> j \<le> length (takeWhile domain_char rest) \<Longrightarrow> \<not> dot_tld (drop j rest)"
proof (induction rest arbitrary: j)
  case Nil
  then show ?case by simp
next
  case (Cons c s)
  show ?case
  proof (cases "domain_char c")
    case True
    then have nd: "\<not> dot_tld (c # s)" and cr: "clear_run s" using Cons.prems by simp_all
    show ?thesis
    proof (cases j)
      case 0
      then show ?thesis using nd by simp
    next
      case (Suc j')
      then have "j' \<le> length (takeWhile domain_char s)" using Cons.prems True by simp
      then show ?thesis using Cons.IH [OF cr] Suc by simp
    qed
  next
    case False
    then have j: "j = 0" using Cons.prems by simp
    have "c \<noteq> CHR ''.''" using False dot_domain by auto
    then have "\<not> dot_tld (c # s)" by (cases "c # s" rule: dot_tld.cases) auto
    then show ?thesis using j by simp
  qed
qed

lemma rmatch_domain:
  assumes d: "d \<noteq> []" "list_all domain_char d"
    and t: "list_all letter_char t" "2 \<le> length t"
    and rest: "ends_address rest"
  shows "rmatch [Cls domain_char 1, Lit (CHR ''.''), Cls letter_char 2]
           (d @ CHR ''.'' # t @ rest) = Some (d @ CHR ''.'' # t)"
proof -
  let ?s = "d @ CHR ''.'' # t @ rest"
  let ?r = "takeWhile domain_char rest"
  let ?cont = "rmatch [Lit (CHR ''.''), Cls letter_char 2]"
  have rl: "rest = [] \<or> \<not> letter_char (hd rest)" and cr: "clear_run rest"
    using rest by (simp_all add: ends_address_def)
  have all: "\<forall>x \<in> set (d @ CHR ''.'' # t). domain_char x"
    using d t by (auto simp: list_all_iff dot_domain letter_domain)
  have "takeWhile domain_char ((d @ CHR ''.'' # t) @ rest) = (d @ CHR ''.'' # t) @ ?r"
    using all by (intro takeWhile_append2) blast
  then have tw: "length (takeWhile domain_char ?s) = length d + 1 + length t + length ?r"
    by simp
  have hit: "?cont (drop (length d) ?s) = Some (CHR ''.'' # t)"
    using rmatch_tld [OF t rl] by simp
  have miss: "\<forall>i. length d < i \<and> i \<le> length d + 1 + length t + length ?r
                \<longrightarrow> ?cont (drop i ?s) = None"
  proof (intro allI impI)
    fix i assume i: "length d < i \<and> i \<le> length d + 1 + length t + length ?r"
    define j where "j = i - length d - 1"
    have ij: "i = length d + Suc j" using i unfolding j_def by linarith
    have jb: "j \<le> length t + length ?r" using i unfolding j_def by linarith
    have dr: "drop i ?s = drop j (t @ rest)" unfolding ij by simp
    have "\<not> dot_tld (drop j (t @ rest))"
    proof (cases "j < length t")
      case True
      then have "hd (drop j (t @ rest)) = t ! j" "drop j (t @ rest) \<noteq> []"
        by (simp_all add: hd_drop_conv_nth nth_append)
      moreover have "letter_char (t ! j)" using t True by (simp add: list_all_length)
      ultimately show ?thesis using letter_start_no_dot_tld by auto
    next
      case False
      then have e: "drop j (t @ rest) = drop (j - length t) rest" by simp
      have "j - length t \<le> length ?r" using jb False by linarith
      then show ?thesis unfolding e using cr by (intro clear_run_drop)
    qed
    then show "?cont (drop i ?s) = None"
      unfolding dr by (rule rmatch_dot_tld_none)
  qed
  have "backtrack ?cont 1 (length d + 1 + length t + length ?r) ?s
          = Some (take (length d) ?s @ CHR ''.'' # t)"
    using d miss hit by (intro backtrack_hit) (simp_all add: Suc_le_eq)
  then show ?thesis by (simp add: tw)
qed

lemma rmatch_address:
  assumes "valid_address a" and rest: "ends_address rest"
  shows "rmatch EMAIL_REGEX (a @ rest) = Some a"
proof -
  from assms(1) obtain l d t where a: "a = l @ CHR ''@'' # d @ CHR ''.'' # t"
    and l: "l \<noteq> []" "list_all local_char l"
    and d: "d \<noteq> []" "list_all domain_char d"
    and t: "2 \<le> length t" "list_all letter_char t"
    unfolding valid_address_def by blast
  let ?s = "l @ CHR ''@'' # d @ CHR ''.'' # t @ rest"
  let ?cont = "rmatch [Lit (CHR ''@''), Cls domain_char 1, Lit (CHR ''.''), Cls letter_char 2]"
  have "takeWhile local_char (l @ (CHR ''@'' # d @ CHR ''.'' # t @ rest)) = l"
    using l at_not_local by (intro takeWhile_prefix_stop) simp_all
  then have tw: "length (takeWhile local_char ?s) = length l" by simp
  have hit: "?cont (drop (length l) ?s) = Some (CHR ''@'' # d @ CHR ''.'' # t)"
    using rmatch_domain [OF d t(2) t(1) rest] by simp
  have "backtrack ?cont 1 (length l) ?s = Some (take (length l) ?s @ CHR ''@'' # d @ CHR ''.'' # t)"
    using l hit by (intro backtrack_hit) (simp_all add: Suc_le_eq)
  then show ?thesis by (simp add: EMAIL_REGEX_def tw a)
qed

lemma valid_address_nonempty: "valid_address a \<Longrightarrow> a \<noteq> []"
  by (auto simp: valid_address_def)

text \<open>Where the run of local-part characters is not followed by \<open>@\<close>, nothing matches.\<close>

lemma rmatch_no_at:
  assumes "dropWhile local_char s = [] \<or> hd (dropWhile local_char s) \<noteq> CHR ''@''"
  shows "rmatch EMAIL_REGEX s = None"
proof -
  let ?l = "takeWhile local_char s"
  let ?cont = "rmatch [Lit (CHR ''@''), Cls domain_char 1, Lit (CHR ''.''), Cls letter_char 2]"
  have "\<forall>i. 1 \<le> i \<and> i \<le> length ?l \<longrightarrow> ?cont (drop i s) = None"
  proof (intro allI impI)
    fix i assume i: "1 \<le> i \<and> i \<le> length ?l"
    have z: "i - length ?l = 0" using i by simp
    have "drop i (?l @ dropWhile local_char s) = drop i ?l @ dropWhile local_char s"
      by (simp only: drop_append z drop_0)
    then have dr: "drop i s = drop i ?l @ dropWhile local_char s"
      by (simp only: takeWhile_dropWhile_id)
    have "drop i s = [] \<or> hd (drop i s) \<noteq> CHR ''@''"
    proof (cases "i < length ?l")
      case True
      then have "hd (drop i s) = ?l ! i" unfolding dr by (simp add: hd_drop_conv_nth)
      moreover have "?l ! i \<in> set ?l" using True by simp
      then have "local_char (?l ! i)" by (rule set_takeWhileD [THEN conjunct2])
      ultimately show ?thesis using at_not_local by auto
    next
      case False
      then have "drop i s = dropWhile local_char s" unfolding dr using i by simp
      then show ?thesis using assms by simp
    qed
    then show "?cont (drop i s) = None" by (cases "drop i s") auto
  qed
  then have "backtrack ?cont 1 (length ?l) s = None"
    by (intro backtrack_miss) simp_all
  then show ?thesis by (simp add: EMAIL_REGEX_def)
qed

lemma rmatch_no_local: "s = [] \<or> \<not> local_char (hd s) \<Longrightarrow> rmatch EMAIL_REGEX s = None"
  by (cases s) (auto simp: EMAIL_REGEX_def)

lemma free_at_run:
  "free_at s \<Longrightarrow> s \<noteq> [] \<Longrightarrow> local_char (hd s)
   \<Longrightarrow> dropWhile local_char s = [] \<or> hd (dropWhile local_char s) \<noteq> CHR ''@''"
proof (induction s rule: free_at.induct)
  case (1 c d s)
  show ?case
  proof (cases "local_char d")
    case True
    then show ?thesis using 1 by simp
  next
    case False
    then show ?thesis using 1 by simp
  qed
qed simp_all

lemma free_at_tl: "free_at (c # cs) \<Longrightarrow> free_at cs"
  by (cases cs) simp_all

lemma rmatch_free_at: "free_at s \<Longrightarrow> rmatch EMAIL_REGEX s = None"
proof (cases "s = [] \<or> \<not> local_char (hd s)")
  case True
  then show ?thesis by (rule rmatch_no_local)
next
  case False
  assume "free_at s"
  then show ?thesis using False by (intro rmatch_no_at free_at_run) simp_all
qed

lemma match_all_free_at: "free_at s \<Longrightarrow> match_all s = []"
proof (induction s)
  case Nil
  then show ?case by simp
next
  case (Cons c cs)
  have "rmatch EMAIL_REGEX (c # cs) = None" using Cons.prems by (rule rmatch_free_at)
  then have "match_all (c # cs) = match_all cs" by (simp del: rmatch.simps)
  then show ?case using Cons free_at_tl by auto
qed

text \<open>Nothing matches from inside a stretch that ends before the next address begins.\<close>

lemma rmatch_in_gap:
  assumes "free_at (c # cs)" "\<not> local_char (last (c # cs))"
  shows "rmatch EMAIL_REGEX ((c # cs) @ s) = None"
proof (cases "local_char c")
  case False
  then show ?thesis by (intro rmatch_no_local) simp
next
  case True
  have m: "last (c # cs) \<in> set (c # cs)" by (rule last_in_set) simp
  then have e: "dropWhile local_char ((c # cs) @ s) = dropWhile local_char (c # cs) @ s"
    using assms(2) by (intro dropWhile_append1)
  have ne: "dropWhile local_char (c # cs) \<noteq> []"
    using m assms(2) by (metis dropWhile_eq_Nil_conv)
  have "dropWhile local_char (c # cs) = [] \<or> hd (dropWhile local_char (c # cs)) \<noteq> CHR ''@''"
    using assms(1) True by (intro free_at_run) simp_all
  then have "hd (dropWhile local_char (c # cs)) \<noteq> CHR ''@''" using ne by simp
  then have "dropWhile local_char ((c # cs) @ s) = []
      \<or> hd (dropWhile local_char ((c # cs) @ s)) \<noteq> CHR ''@''"
    unfolding e using ne by simp
  then show ?thesis by (rule rmatch_no_at)
qed

lemma match_all_gap: "gap sep \<Longrightarrow> match_all (sep @ s) = match_all s"
proof (induction sep)
  case Nil
  then show ?case by simp
next
  case (Cons c cs)
  have n: "free_at (c # cs)" and l: "\<not> local_char (last (c # cs))"
    using Cons.prems by (simp_all add: gap_def)
  have g: "gap cs" using free_at_tl [OF n] l by (cases cs) (simp_all add: gap_def)
  have "rmatch EMAIL_REGEX (c # (cs @ s)) = None"
    using rmatch_in_gap [OF n l, of s] by simp
  then have "match_all ((c # cs) @ s) = match_all (cs @ s)"
    by (simp del: rmatch.simps)
  then show ?case using Cons.IH [OF g] by simp
qed

lemma match_all_address:
  assumes "valid_address a" "ends_address rest"
  shows "match_all (a @ rest) = a # match_all rest"
proof -
  obtain c cs where a: "a = c # cs"
    using valid_address_nonempty [OF assms(1)] by (cases a) auto
  have "rmatch EMAIL_REGEX ((c # cs) @ rest) = Some (c # cs)"
    using rmatch_address [OF assms] a by simp
  then have "rmatch EMAIL_REGEX (c # (cs @ rest)) = Some (c # cs)" by simp
  then have "match_all (c # (cs @ rest))
               = (c # cs) # match_all (drop (length (c # cs)) (c # (cs @ rest)))"
    by (simp del: rmatch.simps)
  then show ?thesis by (simp add: a)
qed

lemma match_all_page_text:
  "well_separated pairs tail \<Longrightarrow> match_all (page_text pairs tail) = map snd pairs"
proof (induction pairs)
  case Nil
  then show ?case by (simp add: match_all_free_at)
next
  case (Cons p pairs)
  obtain sep a where p: "p = (sep, a)" by (cases p)
  from Cons.prems p have g: "gap sep" and v: "valid_address a"
    and e: "ends_address (page_text pairs tail)"
    and w: "well_separated pairs tail" by simp_all
  have "match_all (page_text (p # pairs) tail) = match_all (a @ page_text pairs tail)"
    using g p by (simp add: match_all_gap)
  also have "\<dots> = a # match_all (page_text pairs tail)"
    using v e by (rule match_all_address)
  finally show ?case using Cons.IH w p by simp
qed

lemma extract_page_text:
  assumes "well_separated pairs tail"
    and "\<forall>p \<in> set pairs. \<not> denied (toLowerCase (snd p))"
  shows "extractEmailsFromPage (Returns (page_text pairs tail))
           = map (\<lambda>p. toLowerCase (snd p)) pairs"
proof -
  have "filter (\<lambda>e. \<not> denied e) (map toLowerCase (map snd pairs))
          = map toLowerCase (map snd pairs)"
    using assms(2) by (intro filter_True) auto
  then show ?thesis
    using match_all_page_text [OF assms(1)] by (simp add: extractEmailsFromPage_def comp_def)
qed

lemma valid_addressI:
  "l \<noteq> [] \<Longrightarrow> list_all local_char l \<Longrightarrow> d \<noteq> [] \<Longrightarrow> list_all domain_char d
   \<Longrightarrow> 2 \<le> length t \<Longrightarrow> list_all letter_char t
   \<Longrightarrow> valid_address (l @ CHR ''@'' # d @ CHR ''.'' # t)"
  unfolding valid_address_def by blast

lemma valid_examples:
  "valid_address ''Bob@Site.org''" "valid_address ''ann@MAIL.site.org''"
  "valid_address ''BOB@site.org''" "valid_address ''ann@mail.SITE.org''"
  using valid_addressI [of "''Bob''" "''Site''" "''org''"]
    valid_addressI [of "''ann''" "''MAIL.site''" "''org''"]
    valid_addressI [of "''BOB''" "''site''" "''org''"]
    valid_addressI [of "''ann''" "''mail.SITE''" "''org''"]
  by (simp_all add: char_defs)

lemma lower_examples:
  "toLowerCase ''Bob@Site.org'' = ''bob@site.org''"
  "toLowerCase ''ann@MAIL.site.org'' = ''ann@mail.site.org''"
  "toLowerCase ''BOB@site.org'' = ''bob@site.org''"
  "toLowerCase ''ann@mail.SITE.org'' = ''ann@mail.site.org''"
  by code_simp+

lemma denied_examples:
  "\<not> denied ''bob@site.org''" "\<not> denied ''ann@mail.site.org''"
  by code_simp+

text \<open>
  Claim C4, as the claim has it, fails for an address that only contains a deny-list
  string: \<open>sales@example.community\<close> is matched by the pattern, is in none of the three
  placeholder domains and has no \<open>noreply\<close> prefix, and the extractor discards it.
\<close>

theorem address_with_deny_substring_is_dropped:
  "match_all ''sales@example.community'' = [''sales@example.community'']
   \<and> \<not> spec_deny_listed ''sales@example.community''
   \<and> extractEmailsFromPage (Returns ''sales@example.community'') = []"
  by code_simp

text \<open>
  Claim C4, amended. For a page text that contains N syntactically valid addresses, with
  no \<open>@\<close> right after a local-part character anywhere else, each address standing free
  in the text (not run into by a local-part character before it, not carried on by a
  letter or a dot and two letters after it),
  whose lower-cased forms are pairwise distinct and do not contain any of the strings
  \<open>example.com\<close>, \<open>example.org\<close>, \<open>example.net\<close>, \<open>noreply@\<close>, \<open>no-reply@\<close>, the extractor
  returns exactly the N lower-cased addresses, all distinct; and another such text with
  the same addresses up to case, in any order, gives the same set.
\<close>

theorem extract_separated_addresses:
  assumes "well_separated pairs tail"
    and "\<forall>p \<in> set pairs. \<not> denied (toLowerCase (snd p))"
    and "distinct (map (\<lambda>p. toLowerCase (snd p)) pairs)"
  shows "extractEmailsFromPage (Returns (page_text pairs tail))
           = map (\<lambda>p. toLowerCase (snd p)) pairs
       \<and> distinct (extractEmailsFromPage (Returns (page_text pairs tail)))
       \<and> length (extractEmailsFromPage (Returns (page_text pairs tail))) = length pairs
       \<and> (well_separated pairs' tail'
           \<and> (\<lambda>p. toLowerCase (snd p)) ` set pairs' = (\<lambda>p. toLowerCase (snd p)) ` set pairs
           \<longrightarrow> set (extractEmailsFromPage (Returns (page_text pairs' tail')))
               = set (extractEmailsFromPage (Returns (page_text pairs tail))))"
proof -
  have e: "extractEmailsFromPage (Returns (page_text pairs tail))
           = map (\<lambda>p. toLowerCase (snd p)) pairs"
    using assms(1,2) by (rule extract_page_text)
  have o: "set (extractEmailsFromPage (Returns (page_text pairs' tail')))
               = set (extractEmailsFromPage (Returns (page_text pairs tail)))"
    if w: "well_separated pairs' tail'"
      and s: "(\<lambda>p. toLowerCase (snd p)) ` set pairs' = (\<lambda>p. toLowerCase (snd p)) ` set pairs"
  proof -
    have "\<forall>p \<in> set pairs'. \<not> denied (toLowerCase (snd p))"
    proof
      fix p assume "p \<in> set pairs'"
      then have "toLowerCase (snd p) \<in> (\<lambda>p. toLowerCase (snd p)) ` set pairs" using s by blast
      then show "\<not> denied (toLowerCase (snd p))" using assms(2) by auto
    qed
    then have "extractEmailsFromPage (Returns (page_text pairs' tail'))
           = map (\<lambda>p. toLowerCase (snd p)) pairs'"
      using w by (intro extract_page_text)
    then show ?thesis using e s by simp
  qed
  show ?thesis using e o assms(3) by simp
qed

theorem extract_separated_addresses_witness:
  "page_text [(''ask @bob or write to '', ''Bob@Site.org''), ('', or '', ''ann@MAIL.site.org'')] ''. Thanks!''
     = ''ask @bob or write to Bob@Site.org, or ann@MAIL.site.org. Thanks!''
   \<and> well_separated [(''ask @bob or write to '', ''Bob@Site.org''), ('', or '', ''ann@MAIL.site.org'')]
        ''. Thanks!''
   \<and> extractEmailsFromPage (Returns ''ask @bob or write to Bob@Site.org, or ann@MAIL.site.org. Thanks!'')
       = [''bob@site.org'', ''ann@mail.site.org'']
   \<and> set (extractEmailsFromPage (Returns ''ann@mail.SITE.org BOB@site.org''))
       = set (extractEmailsFromPage
                (Returns ''ask @bob or write to Bob@Site.org, or ann@MAIL.site.org. Thanks!''))"
proof -
  let ?pairs = "[(''ask @bob or write to '', ''Bob@Site.org''), ('', or '', ''ann@MAIL.site.org'')]"
  let ?pairs' = "[([], ''ann@mail.SITE.org''), ('' '', ''BOB@site.org'')]"
  have e: "ends_address '', or ann@MAIL.site.org. Thanks!''" "ends_address ''. Thanks!''"
    "ends_address '' BOB@site.org''" "ends_address []"
    by (simp_all add: ends_address_def char_defs)
  have g: "gap ''ask @bob or write to ''" "gap '', or ''" "gap []" "gap '' ''"
    by (simp_all add: gap_def char_defs)
  have ws: "well_separated ?pairs ''. Thanks!''"
    by (simp add: valid_examples e g)
  have ws': "well_separated ?pairs' []"
    by (simp add: valid_examples e g)
  have nd: "\<forall>p \<in> set ?pairs. \<not> denied (toLowerCase (snd p))"
    by (simp add: lower_examples denied_examples)
  have di: "distinct (map (\<lambda>p. toLowerCase (snd p)) ?pairs)"
    by (simp add: lower_examples)
  have same: "(\<lambda>p. toLowerCase (snd p)) ` set ?pairs' = (\<lambda>p. toLowerCase (snd p)) ` set ?pairs"
    by (simp add: lower_examples insert_commute)
  show ?thesis
    using extract_separated_addresses [OF ws nd di, of ?pairs' "[]"] ws ws' same
    by (simp add: lower_examples)
qed

end
